theory Spec2Isabelle
  imports Main
begin

section \<open>Data model\<close>

text \<open>
  The exceptions the engine can raise. \<open>SystemExit\<close> is the \<open>sys.exit()\<close> of the
  constructor; the others are raised by Python itself: \<open>min\<close> of an empty hand
  (\<open>ValueError\<close>), \<open>pop\<close> or \<open>rand.choice\<close> on an empty list and a list index out
  of range (\<open>IndexError\<close>), \<open>//\<close> by zero (\<open>ZeroDivisionError\<close>), and reading the
  local \<open>play\<close> that no strategy branch has bound (\<open>UnboundLocalError\<close>).
  No function of the engine catches an exception.
\<close>

datatype error = SystemExit | ValueError | IndexError | ZeroDivisionError | UnboundLocalError

text \<open>Player indexes: \<open>A = 0\<close> and \<open>B = 1\<close> in the source.\<close>

datatype pid = A | B

fun other :: "pid \<Rightarrow> pid" where
  \<comment> \<open>\<open>(self.current + 1) % 2\<close>\<close>
  "other A = B"
| "other B = A"

fun idx :: "pid \<Rightarrow> int" where
  "idx A = 0"
| "idx B = 1"

definition PRIME_SCORE :: int where
  "PRIME_SCORE = 2"

definition COMPOSITE_SCORE :: int where
  "COMPOSITE_SCORE = 1"

text \<open>
  Modelled from the spec: \<open>util.is_prime\<close> is imported by \<open>Game.py\<close> and \<open>Player.py\<close>
  but is not among the sources. The spec describes it as primality testing, a pure
  function \<open>is_prime(n) -> bool\<close>.
\<close>

definition is_prime :: "int \<Rightarrow> bool" where
  "is_prime n = (1 < n \<and> filter (\<lambda>d. n mod d = 0) [2..n - 1] = [])"

text \<open>
  A Python \<open>set\<close> of cards is an \<open>int set\<close>. Python fixes no iteration order for a
  set, so every function that iterates one (\<open>for c in cards\<close>, \<open>list(self.table)\<close>)
  takes the enumeration \<open>it\<close> as a parameter; \<open>enumerates it\<close> says that it lists
  every finite set, each element once.
\<close>

type_synonym iter = "int set \<Rightarrow> int list"

definition enumerates :: "iter \<Rightarrow> bool" where
  "enumerates it = (\<forall>S. finite S \<longrightarrow> set (it S) = S \<and> distinct (it S))"

record player =
  hand :: "int set"
  primes :: "int list"
  composites :: "int list"

definition Player :: player where
  "Player = \<lparr>hand = {}, primes = [], composites = []\<rparr>"

text \<open>
  A \<open>dict\<close> keeps its keys in insertion order: an association list with unique
  keys. Assigning to a key that is present replaces its value in place.
\<close>

type_synonym move_table = "(int set \<times> int) list"

fun dict_set :: "move_table \<Rightarrow> int set \<Rightarrow> int \<Rightarrow> move_table" where
  "dict_set [] k v = [(k, v)]"
| "dict_set ((k', v') # d) k v = (if k' = k then (k, v) # d else (k', v') # dict_set d k v)"

record game =
  num_cards :: int
  num_hand :: int
  num_table :: int
  change_first :: bool
  depth :: int
  turn :: int
  u :: int
  players :: "pid \<Rightarrow> player"
  table :: "int set"
  turn_payoffs :: "int list"
  first :: pid
  current :: pid
  playable_sets :: move_table

text \<open>
  \<open>GameState\<close> holds deep copies of its arguments: in HOL a value is its own copy.
  The fields are named after the getters of the class.
\<close>

record GameState =
  get_players :: "pid \<Rightarrow> player"
  get_table :: "int set"
  get_payoff :: int
  get_turn :: int
  get_current :: pid
  get_playable_sets :: move_table
  get_played_set :: "int set"
  get_played_payoff :: int

section \<open>Player\<close>

definition hand_list :: "iter \<Rightarrow> player \<Rightarrow> int list" where
  "hand_list it p = it (hand p)"

definition add_hand :: "player \<Rightarrow> int \<Rightarrow> player" where
  "add_hand p c = p\<lparr>hand := insert c (hand p)\<rparr>"

definition remove_hand :: "player \<Rightarrow> int \<Rightarrow> player" where
  "remove_hand p c = (if c \<in> hand p then p\<lparr>hand := hand p - {c}\<rparr> else p)"

definition min_hand :: "player \<Rightarrow> error + int" where
  "min_hand p = (if hand p = {} then Inl ValueError else Inr (Min (hand p)))"

definition is_hand_empty :: "player \<Rightarrow> bool" where
  "is_hand_empty p = (card (hand p) = 0)"

text \<open>
  \<open>rand.choice\<close> draws an index below the length of the list; the draw \<open>r\<close> is a
  parameter, reduced modulo the length. On an empty list it raises \<open>IndexError\<close>.
\<close>

definition get_random_card :: "iter \<Rightarrow> nat \<Rightarrow> player \<Rightarrow> error + int" where
  "get_random_card it r p =
     (let l = it (hand p)
      in if l = [] then Inl IndexError else Inr (l ! (r mod length l)))"

definition can_play_move :: "player \<Rightarrow> int set \<Rightarrow> bool" where
  "can_play_move p move = (card (hand p \<inter> move) \<noteq> 0)"

definition prime_contains :: "player \<Rightarrow> int \<Rightarrow> bool" where
  "prime_contains p c = (c \<in> set (primes p))"

definition composite_contains :: "player \<Rightarrow> int \<Rightarrow> bool" where
  "composite_contains p c = (c \<in> set (composites p))"

definition add_prime :: "player \<Rightarrow> int \<Rightarrow> player" where
  "add_prime p c = p\<lparr>primes := primes p @ [c]\<rparr>"

definition remove_prime :: "player \<Rightarrow> int \<Rightarrow> player" where
  "remove_prime p c =
     (if prime_contains p c then p\<lparr>primes := remove1 c (primes p)\<rparr> else p)"

definition obtain_last_prime :: "player \<Rightarrow> int" where
  "obtain_last_prime p = (if length (primes p) \<noteq> 0 then last (primes p) else - 1)"

definition add_composite :: "player \<Rightarrow> int \<Rightarrow> player" where
  "add_composite p c = p\<lparr>composites := composites p @ [c]\<rparr>"

definition remove_composite :: "player \<Rightarrow> int \<Rightarrow> player" where
  "remove_composite p c =
     (if composite_contains p c then p\<lparr>composites := remove1 c (composites p)\<rparr> else p)"

definition obtain_last_composite :: "player \<Rightarrow> int" where
  "obtain_last_composite p = (if length (composites p) \<noteq> 0 then last (composites p) else - 1)"

definition add_stacks :: "player \<Rightarrow> int \<Rightarrow> player" where
  "add_stacks p c =
     (if is_prime c
      then add_prime (if prime_contains p c then remove_prime p c else p) c
      else add_composite (if composite_contains p c then remove_composite p c else p) c)"

definition remove_stacks :: "player \<Rightarrow> int \<Rightarrow> player" where
  "remove_stacks p c =
     (if is_prime c \<and> prime_contains p c then remove_prime p c
      else if \<not> is_prime c \<and> composite_contains p c then remove_composite p c
      else p)"

section \<open>Table and move generator\<close>

definition is_over :: "game \<Rightarrow> bool" where
  "is_over g =
     (let emptyA = is_hand_empty (players g A);
          emptyB = is_hand_empty (players g B)
      in emptyA \<and> emptyB)"

definition get_winner :: "game \<Rightarrow> int" where
  "get_winner g =
     (if u g > 0 then idx (first g)
      else if u g < 0 then (idx (first g) + 1) mod 2
      else - 1)"

text \<open>
  Both divisions are evaluated before their remainders are tested, so a zero
  divisor raises whatever the other operand is. Python's \<open>//\<close> and \<open>%\<close> round
  towards minus infinity, as \<open>div\<close> and \<open>mod\<close> on \<open>int\<close> do.
\<close>

definition find_playable_cards :: "game \<Rightarrow> int \<Rightarrow> int \<Rightarrow> error + int list" where
  "find_playable_cards g c1 c2 =
     (let pc0 = [];
          pc1 = (if c1 + c2 > 1 \<and> c1 + c2 < num_cards g + 2 then pc0 @ [c1 + c2] else pc0);
          pc2 = (if \<bar>c1 - c2\<bar> > 1 \<and> \<bar>c1 - c2\<bar> < num_cards g + 2 then pc1 @ [\<bar>c1 - c2\<bar>] else pc1);
          pc3 = (if c1 * c2 > 1 \<and> c1 * c2 < num_cards g + 2 then pc2 @ [c1 * c2] else pc2)
      in if c2 = 0 then Inl ZeroDivisionError
         else
           let pc4 = (if (c1 div c2 > 1 \<and> c1 div c2 < num_cards g + 2) \<and> c1 mod c2 = 0
                      then pc3 @ [c1 div c2] else pc3)
           in if c1 = 0 then Inl ZeroDivisionError
              else
                let pc5 = (if (c2 div c1 > 1 \<and> c2 div c1 < num_cards g + 2) \<and> c2 mod c1 = 0
                           then pc4 @ [c2 div c1] else pc4)
                in Inr pc5)"

definition payoff_step :: "player \<Rightarrow> player \<Rightarrow> int \<Rightarrow> int \<Rightarrow> int" where
  \<comment> \<open>the body of the loop over the cards of \<open>calculate_move_payoff\<close>\<close>
  "payoff_step p1 p2 c payoff =
     (let is_pr = is_prime c;
          payoff1 = (if is_pr \<and> \<not> prime_contains p1 c then payoff + PRIME_SCORE
                     else if \<not> is_pr \<and> \<not> composite_contains p1 c then payoff + COMPOSITE_SCORE
                     else payoff);
          payoff2 = (if is_pr \<and> prime_contains p2 c then payoff1 + PRIME_SCORE
                     else if \<not> is_pr \<and> composite_contains p2 c then payoff1 + COMPOSITE_SCORE
                     else payoff1)
      in payoff2)"

definition calculate_move_payoff :: "iter \<Rightarrow> game \<Rightarrow> int set \<Rightarrow> int" where
  "calculate_move_payoff it g card_set =
     (if card card_set \<noteq> 3 then 0
      else
        let p1 = players g (current g);
            p2 = players g (other (current g))
        in fold (payoff_step p1 p2) (it card_set) 0)"

text \<open>
  The pairs \<open>(table_list[i], table_list[j])\<close> with \<open>i < j\<close>, in the order of the two
  nested loops of \<open>find_playable_sets\<close>.
\<close>

fun pairs :: "'a list \<Rightarrow> ('a \<times> 'a) list" where
  "pairs [] = []"
| "pairs (x # xs) = map (Pair x) xs @ pairs xs"

definition add_playable :: "iter \<Rightarrow> game \<Rightarrow> int \<Rightarrow> int \<Rightarrow> int \<Rightarrow> move_table \<Rightarrow> move_table" where
  \<comment> \<open>the body of the loop over \<open>c3\<close>\<close>
  "add_playable it g c1 c2 c3 ps =
     (let s = {c1, c2, c3}
      in if card s = 3 then dict_set ps s (calculate_move_payoff it g s) else ps)"

fun pair_loop :: "iter \<Rightarrow> game \<Rightarrow> (int \<times> int) list \<Rightarrow> move_table \<Rightarrow> error + move_table" where
  "pair_loop it g [] ps = Inr ps"
| "pair_loop it g ((c1, c2) # rest) ps =
     (case find_playable_cards g c1 c2 of
        Inl e \<Rightarrow> Inl e
      | Inr playable_cards \<Rightarrow> pair_loop it g rest (fold (add_playable it g c1 c2) playable_cards ps))"

definition find_playable_sets :: "iter \<Rightarrow> game \<Rightarrow> error + game" where
  "find_playable_sets it g =
     (let table_list = it (table g)
      in case pair_loop it g (pairs table_list) [] of
           Inl e \<Rightarrow> Inl e
         | Inr ps \<Rightarrow>
             Inr (g\<lparr>playable_sets :=
                      fold (\<lambda>c ps. dict_set ps {c} 0) (hand_list it (players g (current g))) ps\<rparr>))"

definition find_first_player :: "game \<Rightarrow> error + game" where
  "find_first_player g =
     (if change_first g then
        case min_hand (players g A) of
          Inl e \<Rightarrow> Inl e
        | Inr minA \<Rightarrow>
            (case min_hand (players g B) of
               Inl e \<Rightarrow> Inl e
             | Inr minB \<Rightarrow>
                 let f = (if minA < minB then A else B)
                 in Inr (g\<lparr>first := f, current := f\<rparr>))
      else Inr (g\<lparr>first := A, current := A\<rparr>))"

section \<open>Turn engine\<close>

definition update_players :: "iter \<Rightarrow> game \<Rightarrow> int set \<Rightarrow> game" where
  "update_players it g cards =
     (let p1 = players g (current g);
          p2 = players g (other (current g));
          last_prime = obtain_last_prime p1;
          t1 = (if last_prime \<noteq> - 1 \<and> last_prime \<in> table g
                then table g - {last_prime} else table g);
          last_composite = obtain_last_composite p1;
          t2 = (if last_composite \<noteq> - 1 \<and> last_composite \<in> t1
                then t1 - {last_composite} else t1);
          (p1a, p2a) =
            fold (\<lambda>c (q1, q2).
                    if card cards = 3
                    then (remove_hand (remove_stacks q1 c) c, remove_stacks q2 c)
                    else (remove_hand q1 c, q2))
              (it cards) (p1, p2);
          p1b = (if card cards = 3 then fold (\<lambda>c q. add_stacks q c) (it cards) p1a else p1a)
      in g\<lparr>players := (players g)(current g := p1b, other (current g) := p2a), table := t2\<rparr>)"

definition update_table :: "iter \<Rightarrow> game \<Rightarrow> int set \<Rightarrow> game" where
  "update_table it g cards =
     (let p1 = players g (current g);
          p2 = players g (other (current g));
          t0 = fold (\<lambda>c t.
                       let t' = (if c \<in> t then t - {c} else t)
                       in if card cards \<noteq> 3 then insert c t' else t')
                 (it cards) (table g);
          t1 = (if obtain_last_prime p1 \<noteq> - 1 then insert (obtain_last_prime p1) t0 else t0);
          t2 = (if obtain_last_composite p1 \<noteq> - 1
                then insert (obtain_last_composite p1) t1 else t1);
          t3 = (if obtain_last_prime p2 \<noteq> - 1 then insert (obtain_last_prime p2) t2 else t2);
          t4 = (if obtain_last_composite p2 \<noteq> - 1
                then insert (obtain_last_composite p2) t3 else t3)
      in g\<lparr>table := t4\<rparr>)"

definition update :: "iter \<Rightarrow> game \<Rightarrow> int set \<Rightarrow> int \<Rightarrow> error + game" where
  "update it g move payoff =
     (let g1 = update_players it g move;
          g2 = update_table it g1 move;
          gain = (if first g2 = current g2 then 1 else - 1);
          g3 = g2\<lparr>u := u g2 + gain * payoff\<rparr>;
          g4 = g3\<lparr>turn := turn g3 + 1\<rparr>;
          g5 = g4\<lparr>current := (if current g4 = A then B else A)\<rparr>
      in find_playable_sets it g5)"

definition GameState_init ::
  "(pid \<Rightarrow> player) \<Rightarrow> int set \<Rightarrow> int \<Rightarrow> int \<Rightarrow> pid \<Rightarrow> move_table \<Rightarrow> int set \<Rightarrow> int \<Rightarrow> GameState" where
  "GameState_init ps t pay tn cur psets played_set played_payoff =
     \<lparr>get_players = ps, get_table = t, get_payoff = pay, get_turn = tn, get_current = cur,
      get_playable_sets = psets, get_played_set = played_set, get_played_payoff = played_payoff\<rparr>"

definition rollback :: "game \<Rightarrow> GameState \<Rightarrow> game" where
  "rollback g game_state =
     g\<lparr>players := get_players game_state,
       table := get_table game_state,
       u := get_payoff game_state,
       turn := get_turn game_state,
       current := get_current game_state,
       playable_sets := get_playable_sets game_state\<rparr>"

section \<open>Search engine\<close>

text \<open>
  The payoffs of the search are Python numbers: an \<open>int\<close>, or one of the floats
  \<open>float("-inf")\<close> and \<open>float("+inf")\<close> the two loops start from. \<open>xadd\<close> and \<open>xsub\<close>
  add and subtract an \<open>int\<close>, \<open>xless\<close> is \<open><\<close>, \<open>xle\<close> is \<open><=\<close>, \<open>xmax a b\<close> is
  \<open>max(a, b)\<close> and \<open>xmin a b\<close> is \<open>min(a, b)\<close>.
\<close>

datatype xint = NegInf | Fin int | PosInf

fun xless :: "xint \<Rightarrow> xint \<Rightarrow> bool" where
  "xless NegInf NegInf = False"
| "xless NegInf (Fin b) = True"
| "xless NegInf PosInf = True"
| "xless (Fin a) NegInf = False"
| "xless (Fin a) (Fin b) = (a < b)"
| "xless (Fin a) PosInf = True"
| "xless PosInf y = False"

fun xadd :: "xint \<Rightarrow> int \<Rightarrow> xint" where
  "xadd NegInf v = NegInf"
| "xadd (Fin a) v = Fin (a + v)"
| "xadd PosInf v = PosInf"

fun xsub :: "xint \<Rightarrow> int \<Rightarrow> xint" where
  "xsub NegInf v = NegInf"
| "xsub (Fin a) v = Fin (a - v)"
| "xsub PosInf v = PosInf"

definition xle :: "xint \<Rightarrow> xint \<Rightarrow> bool" where
  "xle a b = (\<not> xless b a)"

definition xmax :: "xint \<Rightarrow> xint \<Rightarrow> xint" where
  "xmax a b = (if xless a b then b else a)"

definition xmin :: "xint \<Rightarrow> xint \<Rightarrow> xint" where
  "xmin a b = (if xless b a then b else a)"

text \<open>
  \<open>minimax\<close> mutates the game and the list of snapshots it is given, so the model
  returns both beside the result \<open>(minimax_move, minimax_payoff)\<close>. The empty move \<open>{}\<close>
  of the source is the empty set. \<open>max_loop\<close> and \<open>min_loop\<close> are the two \<open>for\<close> loops
  over \<open>self.playable_sets.items()\<close>: the items are those of the dictionary the loop
  started on, and the last two arguments are the locals \<open>minimax_move\<close> and
  \<open>minimax_payoff\<close>. \<open>game_states.pop()\<close> raises \<open>IndexError\<close> on an empty list.
\<close>

type_synonym search = "(int set \<times> xint) \<times> game \<times> GameState list"

function minimax :: "iter \<Rightarrow> game \<Rightarrow> GameState list \<Rightarrow> xint \<Rightarrow> xint \<Rightarrow> error + search"
  and max_loop :: "iter \<Rightarrow> game \<Rightarrow> GameState list \<Rightarrow> xint \<Rightarrow> xint \<Rightarrow> move_table
                     \<Rightarrow> int set \<Rightarrow> xint \<Rightarrow> error + search"
  and min_loop :: "iter \<Rightarrow> game \<Rightarrow> GameState list \<Rightarrow> xint \<Rightarrow> xint \<Rightarrow> move_table
                     \<Rightarrow> int set \<Rightarrow> xint \<Rightarrow> error + search"
where
  "minimax it g game_states alpha beta =
     (if is_over g \<or> int (length game_states) \<ge> depth g
      then Inr (({}, Fin 0), g, game_states)
      else if turn g mod 2 = 0
      then max_loop it g game_states alpha beta (playable_sets g) {} NegInf
      else min_loop it g game_states alpha beta (playable_sets g) {} PosInf)"
| "max_loop it g game_states alpha beta [] minimax_move minimax_payoff =
     Inr ((minimax_move, minimax_payoff), g, game_states)"
| "max_loop it g game_states alpha beta ((k, v) # items) minimax_move minimax_payoff =
     (if can_play_move (players g (current g)) k then
        let move1 = (if card minimax_move = 0 then k else minimax_move);
            game_state = GameState_init (players g) (table g) (u g) (turn g) (current g)
                           (playable_sets g) k v
        in case update it g k v of
             Inl e \<Rightarrow> Inl e
           | Inr g1 \<Rightarrow>
               (case minimax it g1 (game_states @ [game_state]) alpha beta of
                  Inl e \<Rightarrow> Inl e
                | Inr ((next_move, next_payoff), g2, game_states2) \<Rightarrow>
                    let payoff = xadd next_payoff v;
                        payoff2 = (if xless minimax_payoff payoff then payoff else minimax_payoff);
                        move2 = (if xless minimax_payoff payoff then k else move1)
                    in if game_states2 = [] then Inl IndexError
                       else
                         let g3 = rollback g2 (last game_states2);
                             alpha1 = xmax alpha payoff2
                         in if xle beta alpha1
                            then Inr ((move2, payoff2), g3, butlast game_states2)
                            else max_loop it g3 (butlast game_states2) alpha1 beta items
                                   move2 payoff2)
      else max_loop it g game_states alpha beta items minimax_move minimax_payoff)"
| "min_loop it g game_states alpha beta [] minimax_move minimax_payoff =
     Inr ((minimax_move, minimax_payoff), g, game_states)"
| "min_loop it g game_states alpha beta ((k, v) # items) minimax_move minimax_payoff =
     (if can_play_move (players g (current g)) k then
        let move1 = (if card minimax_move = 0 then k else minimax_move);
            game_state = GameState_init (players g) (table g) (u g) (turn g) (current g)
                           (playable_sets g) k v
        in case update it g k v of
             Inl e \<Rightarrow> Inl e
           | Inr g1 \<Rightarrow>
               (case minimax it g1 (game_states @ [game_state]) alpha beta of
                  Inl e \<Rightarrow> Inl e
                | Inr ((next_move, next_payoff), g2, game_states2) \<Rightarrow>
                    let payoff = xsub next_payoff v;
                        payoff2 = (if xless payoff minimax_payoff then payoff else minimax_payoff);
                        move2 = (if xless payoff minimax_payoff then k else move1)
                    in if game_states2 = [] then Inl IndexError
                       else
                         let g3 = rollback g2 (last game_states2);
                             beta1 = xmin beta payoff2
                         in if xle beta1 alpha
                            then Inr ((move2, payoff2), g3, butlast game_states2)
                            else min_loop it g3 (butlast game_states2) alpha beta1 items
                                   move2 payoff2)
      else min_loop it g game_states alpha beta items minimax_move minimax_payoff)"
  by pat_completeness auto

definition minimax_play :: "iter \<Rightarrow> game \<Rightarrow> error + ((int set \<times> int) \<times> game)" where
  "minimax_play it g =
     (case minimax it g [] NegInf PosInf of
        Inl e \<Rightarrow> Inl e
      | Inr ((minimax_move, _), g', _) \<Rightarrow>
          Inr ((minimax_move, calculate_move_payoff it g' minimax_move), g'))"

section \<open>Heuristic strategies and simulation\<close>

definition random_play :: "iter \<Rightarrow> nat \<Rightarrow> game \<Rightarrow> error + (int set \<times> int)" where
  "random_play it r g =
     (case get_random_card it r (players g (current g)) of
        Inl e \<Rightarrow> Inl e
      | Inr c \<Rightarrow>
          (case find (\<lambda>(k, v). c \<in> k) (playable_sets g) of
             Some (k, v) \<Rightarrow> Inr (k, v)
           | None \<Rightarrow> Inr ({c}, 0)))"

definition greedy_play :: "iter \<Rightarrow> nat \<Rightarrow> game \<Rightarrow> error + (int set \<times> int)" where
  "greedy_play it r g =
     (let p = players g (current g)
      in case get_random_card it r p of
           Inl e \<Rightarrow> Inl e
         | Inr c \<Rightarrow>
             Inr (fold (\<lambda>(k, v) (max_move, max_payoff).
                          if can_play_move p k \<and> v > max_payoff then (k, v)
                          else (max_move, max_payoff))
                    (playable_sets g) ({c}, 0)))"

text \<open>
  One turn of the loop of \<open>simulate\<close>. \<open>rs\<close> is the sequence of random draws still to
  come: \<open>random_play\<close> and \<open>greedy_play\<close> take one. \<open>prev\<close> holds the locals \<open>play\<close>
  and \<open>payoff\<close>, which keep their values from the turn before when no strategy name
  matches, and are unbound on the first turn. Printing changes nothing and is left out.
\<close>

type_synonym rand = "nat \<Rightarrow> nat"

definition RANDOM :: string where
  "RANDOM = ''random''"

definition GREEDY :: string where
  "GREEDY = ''greedy''"

definition MINIMAX :: string where
  "MINIMAX = ''minimax''"

definition choose_play ::
  "iter \<Rightarrow> rand \<Rightarrow> string list \<Rightarrow> (int set \<times> int) option \<Rightarrow> game
     \<Rightarrow> error + ((int set \<times> int) option \<times> rand \<times> game)" where
  "choose_play it rs strategies prev g =
     (if length strategies \<le> nat (idx (current g)) then Inl IndexError
      else
        let s = strategies ! nat (idx (current g))
        in if s = RANDOM then
             (case random_play it (rs 0) g of
                Inl e \<Rightarrow> Inl e
              | Inr pl \<Rightarrow> Inr (Some pl, (\<lambda>i. rs (Suc i)), g))
           else if s = GREEDY then
             (case greedy_play it (rs 0) g of
                Inl e \<Rightarrow> Inl e
              | Inr pl \<Rightarrow> Inr (Some pl, (\<lambda>i. rs (Suc i)), g))
           else if s = MINIMAX then
             (case minimax_play it g of
                Inl e \<Rightarrow> Inl e
              | Inr (pl, g') \<Rightarrow> Inr (Some pl, rs, g'))
           else Inr (prev, rs, g))"

definition play_turn ::
  "iter \<Rightarrow> rand \<Rightarrow> string list \<Rightarrow> (int set \<times> int) option \<Rightarrow> game
     \<Rightarrow> error + ((int set \<times> int) option \<times> rand \<times> game)" where
  "play_turn it rs strategies prev g =
     (case choose_play it rs strategies prev g of
        Inl e \<Rightarrow> Inl e
      | Inr (None, rs', g0) \<Rightarrow> Inl UnboundLocalError
      | Inr (Some (play, payoff), rs', g0) \<Rightarrow>
          let g1 = update_players it g0 play;
              g2 = update_table it g1 play;
              gain = (if first g2 = current g2 then 1 else - 1);
              g3 = g2\<lparr>u := u g2 + gain * payoff\<rparr>;
              g4 = g3\<lparr>turn_payoffs := turn_payoffs g3 @ [u g3]\<rparr>;
              g5 = g4\<lparr>turn := turn g4 + 1\<rparr>;
              g6 = g5\<lparr>current := (if current g5 = A then B else A)\<rparr>
          in case find_playable_sets it g6 of
               Inl e \<Rightarrow> Inl e
             | Inr g7 \<Rightarrow> Inr (Some (play, payoff), rs', g7))"

text \<open>
  The \<open>while\<close> loop of \<open>simulate\<close> need not end, so it is a partial function: \<open>None\<close>
  is a run that never returns. A run that returns gives \<open>(first, winner, u)\<close> and the
  final game, or the exception that stopped it.
\<close>

partial_function (option) simulate_loop ::
  "iter \<Rightarrow> rand \<Rightarrow> string list \<Rightarrow> (int set \<times> int) option \<Rightarrow> game
     \<Rightarrow> (error + ((int \<times> int \<times> int) \<times> game)) option" where
  "simulate_loop it rs strategies prev g =
     (if \<not> is_over g then
        (case play_turn it rs strategies prev g of
           Inl e \<Rightarrow> Some (Inl e)
         | Inr (prev', rs', g') \<Rightarrow> simulate_loop it rs' strategies prev' g')
      else Some (Inr ((idx (first g), get_winner g, u g), g)))"

definition simulate ::
  "iter \<Rightarrow> rand \<Rightarrow> game \<Rightarrow> string list \<Rightarrow> (error + ((int \<times> int \<times> int) \<times> game)) option" where
  "simulate it rs g strategies = simulate_loop it rs strategies None g"

section \<open>Construction\<close>

text \<open>
  \<open>rand.shuffle\<close> is a parameter: \<open>shuffle\<close> gives the order of the deck after it.
  \<open>cards.pop()\<close> takes the last card and raises \<open>IndexError\<close> on an empty list.
\<close>

fun deal_loop :: "nat \<Rightarrow> int list \<Rightarrow> player \<Rightarrow> player \<Rightarrow> error + (int list \<times> player \<times> player)" where
  "deal_loop 0 cards pA pB = Inr (cards, pA, pB)"
| "deal_loop (Suc n) cards pA pB =
     (if cards = [] then Inl IndexError
      else
        let pA' = add_hand pA (last cards);
            cards1 = butlast cards
        in if cards1 = [] then Inl IndexError
           else deal_loop n (butlast cards1) pA' (add_hand pB (last cards1)))"

definition deal_cards :: "(int list \<Rightarrow> int list) \<Rightarrow> game \<Rightarrow> error + game" where
  "deal_cards shuffle g =
     (let cards = shuffle [2..num_cards g + 1]
      in case deal_loop (nat (num_hand g)) cards (players g A) (players g B) of
           Inl e \<Rightarrow> Inl e
         | Inr (rest, pA, pB) \<Rightarrow>
             Inr (g\<lparr>players := (players g)(A := pA, B := pB), table := set rest\<rparr>))"

definition reset :: "(int list \<Rightarrow> int list) \<Rightarrow> iter \<Rightarrow> game \<Rightarrow> error + game" where
  "reset shuffle it g =
     (let g1 = g\<lparr>turn := 1, u := 0, players := (\<lambda>p. Player), table := {}, turn_payoffs := []\<rparr>
      in case deal_cards shuffle g1 of
           Inl e \<Rightarrow> Inl e
         | Inr g2 \<Rightarrow>
             (case find_first_player g2 of
                Inl e \<Rightarrow> Inl e
              | Inr g3 \<Rightarrow> find_playable_sets it g3))"

text \<open>
  The constructor. The attributes that \<open>reset\<close> assigns before anything reads them
  start at the values \<open>reset\<close> gives them or at \<open>A\<close> and the empty table.
\<close>

definition Game_init ::
  "(int list \<Rightarrow> int list) \<Rightarrow> iter \<Rightarrow> int \<Rightarrow> int \<Rightarrow> int \<Rightarrow> bool \<Rightarrow> int \<Rightarrow> error + game" where
  "Game_init shuffle it nc nh nt cf d =
     (if nc \<noteq> nh * 2 + nt then Inl SystemExit
      else reset shuffle it
             \<lparr>num_cards = nc, num_hand = nh, num_table = nt, change_first = cf, depth = d,
              turn = 1, u = 0, players = (\<lambda>p. Player), table = {}, turn_payoffs = [],
              first = A, current = A, playable_sets = []\<rparr>)"

section \<open>A concrete game\<close>

text \<open>
  A ten-card game (\<open>num_cards = 10\<close>, \<open>num_hand = 4\<close>, \<open>num_table = 2\<close>) after the deal,
  with player \<open>A\<close> to move. The theorems below are instantiated at it.
\<close>

definition example_game :: game where
  "example_game =
     \<lparr>num_cards = 10, num_hand = 4, num_table = 2, change_first = True, depth = 2,
      turn = 1, u = 0,
      players = (\<lambda>p. case p of
                   A \<Rightarrow> \<lparr>hand = {3, 5, 8, 10}, primes = [], composites = []\<rparr>
                 | B \<Rightarrow> \<lparr>hand = {4, 6, 9, 11}, primes = [], composites = []\<rparr>),
      table = {2, 7}, turn_payoffs = [], first = A, current = A,
      playable_sets = [({2, 7, 9}, 5), ({2, 5, 7}, 6), ({3}, 0), ({5}, 0), ({8}, 0), ({10}, 0)]\<rparr>"

section \<open>Auxiliary predicates\<close>

text \<open>Every payoff stored in a move table is non-negative.\<close>

definition nonneg_table :: "move_table \<Rightarrow> bool" where
  "nonneg_table d = list_all (\<lambda>kv. 0 \<le> snd kv) d"

text \<open>The attributes of a game that no turn changes.\<close>

definition same_setup :: "game \<Rightarrow> game \<Rightarrow> bool" where
  "same_setup g g' =
     (num_cards g' = num_cards g \<and> num_hand g' = num_hand g \<and> num_table g' = num_table g \<and>
      change_first g' = change_first g \<and> depth g' = depth g \<and>
      turn_payoffs g' = turn_payoffs g \<and> first g' = first g)"

text \<open>The measure that decreases along the calls of \<open>minimax\<close> and its two loops.\<close>

definition search_measure ::
  "(iter \<times> game \<times> GameState list \<times> xint \<times> xint) +
   (iter \<times> game \<times> GameState list \<times> xint \<times> xint \<times> move_table \<times> int set \<times> xint) +
   (iter \<times> game \<times> GameState list \<times> xint \<times> xint \<times> move_table \<times> int set \<times> xint)
   \<Rightarrow> nat \<times> nat" where
  "search_measure x =
     (case x of
        Inl (it, g, gs, al, be) \<Rightarrow>
          (if nat (depth g - int (length gs)) = 0 then 0
           else 2 * nat (depth g - int (length gs)) + 2, 0)
      | Inr (Inl (it, g, gs, al, be, items, mm, mp)) \<Rightarrow>
          (2 * nat (depth g - int (length gs)) + 1, length items)
      | Inr (Inr (it, g, gs, al, be, items, mm, mp)) \<Rightarrow>
          (2 * nat (depth g - int (length gs)) + 1, length items))"

text \<open>The active player can play none of the moves of \<open>items\<close>.\<close>

definition no_playable :: "game \<Rightarrow> move_table \<Rightarrow> bool" where
  "no_playable g items = list_all (\<lambda>kv. \<not> can_play_move (players g (current g)) (fst kv)) items"

text \<open>
  The example game with the hand of the active player \<open>A\<close> emptied: the game is not
  over, and \<open>A\<close> can play neither of the two moves of the move table.
\<close>

definition stuck_game :: game where
  "stuck_game =
     example_game\<lparr>players := (players example_game)(A := Player),
                  playable_sets := [({2, 7, 9}, 5), ({2, 5, 7}, 6)]\<rparr>"

text \<open>\<open>rand.shuffle\<close> reorders a deck of distinct cards and keeps every card.\<close>

definition permutes_deck :: "(int list \<Rightarrow> int list) \<Rightarrow> bool" where
  "permutes_deck shuffle = (\<forall>xs. distinct xs \<longrightarrow> distinct (shuffle xs) \<and> set (shuffle xs) = set xs)"

section \<open>Plain minimax\<close>

text \<open>
  The search of the spec without pruning, written from the spec's words and not from
  the code: a node is terminal when the game is over or no ply is left, and its value is
  the empty move with payoff 0; a maximizing layer (even turn) starts from minus infinity
  and keeps, over the moves the active player can play in move-table order, the move
  whose candidate (child payoff plus the payoff of the move) is strictly greatest; a
  minimizing layer starts from plus infinity, subtracts the payoff of the move and keeps
  the strictly least candidate. The second argument counts the plies left.
\<close>

fun plain_minimax :: "iter \<Rightarrow> nat \<Rightarrow> game \<Rightarrow> error + (int set \<times> xint)"
  and plain_max :: "iter \<Rightarrow> nat \<Rightarrow> game \<Rightarrow> move_table \<Rightarrow> int set \<Rightarrow> xint \<Rightarrow> error + (int set \<times> xint)"
  and plain_min :: "iter \<Rightarrow> nat \<Rightarrow> game \<Rightarrow> move_table \<Rightarrow> int set \<Rightarrow> xint \<Rightarrow> error + (int set \<times> xint)"
where
  "plain_minimax it 0 g = Inr ({}, Fin 0)"
| "plain_minimax it (Suc n) g =
     (if is_over g then Inr ({}, Fin 0)
      else if turn g mod 2 = 0 then plain_max it n g (playable_sets g) {} NegInf
      else plain_min it n g (playable_sets g) {} PosInf)"
| "plain_max it n g [] best_move best = Inr (best_move, best)"
| "plain_max it n g ((k, v) # items) best_move best =
     (if can_play_move (players g (current g)) k then
        case update it g k v of
          Inl e \<Rightarrow> Inl e
        | Inr g1 \<Rightarrow>
            (case plain_minimax it n g1 of
               Inl e \<Rightarrow> Inl e
             | Inr (child_move, child_payoff) \<Rightarrow>
                 let candidate = xadd child_payoff v
                 in if xless best candidate then plain_max it n g items k candidate
                    else plain_max it n g items best_move best)
      else plain_max it n g items best_move best)"
| "plain_min it n g [] best_move best = Inr (best_move, best)"
| "plain_min it n g ((k, v) # items) best_move best =
     (if can_play_move (players g (current g)) k then
        case update it g k v of
          Inl e \<Rightarrow> Inl e
        | Inr g1 \<Rightarrow>
            (case plain_minimax it n g1 of
               Inl e \<Rightarrow> Inl e
             | Inr (child_move, child_payoff) \<Rightarrow>
                 let candidate = xsub child_payoff v
                 in if xless candidate best then plain_min it n g items k candidate
                    else plain_min it n g items best_move best)
      else plain_min it n g items best_move best)"



text \<open>The cards of the two capture stacks of a player.\<close>

definition stack_cards :: "player \<Rightarrow> int set" where
  "stack_cards p = set (primes p) \<union> set (composites p)"

text \<open>
  The prime stack holds primes, the composite stack holds composites, and no stack holds a
  card twice.
\<close>

definition typed_stacks :: "player \<Rightarrow> bool" where
  "typed_stacks p =
     (list_all is_prime (primes p) \<and> list_all (\<lambda>c. \<not> is_prime c) (composites p) \<and>
      distinct (primes p) \<and> distinct (composites p))"

text \<open>
  The disjointness the game keeps between two players and the table: the hands are disjoint
  from each other, from the table and from every stack, and the four stacks are pairwise
  disjoint. The table and the stacks may share cards: the top of each stack lies on the
  table.
\<close>

definition disjoint_board :: "int set \<Rightarrow> player \<Rightarrow> player \<Rightarrow> bool" where
  "disjoint_board t p q =
     (hand p \<inter> hand q = {} \<and> (hand p \<union> hand q) \<inter> t = {} \<and>
      (hand p \<union> hand q) \<inter> (stack_cards p \<union> stack_cards q) = {} \<and>
      stack_cards p \<inter> stack_cards q = {} \<and>
      set (primes p) \<inter> set (composites p) = {} \<and>
      set (primes q) \<inter> set (composites q) = {})"

text \<open>Finite hands and table, typed stacks, and no card below 2.\<close>

definition sound_board :: "int set \<Rightarrow> player \<Rightarrow> player \<Rightarrow> bool" where
  "sound_board t p q =
     (finite t \<and> finite (hand p) \<and> finite (hand q) \<and> typed_stacks p \<and> typed_stacks q \<and>
      (\<forall>c \<in> t \<union> hand p \<union> hand q \<union> stack_cards p \<union> stack_cards q. 2 \<le> c))"

definition disjoint_cards :: "game \<Rightarrow> bool" where
  "disjoint_cards g = disjoint_board (table g) (players g A) (players g B)"

definition sound_cards :: "game \<Rightarrow> bool" where
  "sound_cards g = sound_board (table g) (players g A) (players g B)"

text \<open>
  A key of the move table: a finite set of cards from 2 up that is one card of the active
  hand, or has all its cards but one on the table.
\<close>

definition key_ok :: "game \<Rightarrow> int set \<Rightarrow> bool" where
  "key_ok g k =
     (finite k \<and> (\<forall>c\<in>k. 2 \<le> c) \<and>
      ((\<exists>c \<in> hand (players g (current g)). k = {c}) \<or> (\<exists>c. k - {c} \<subseteq> table g)))"

definition moves_ok :: "game \<Rightarrow> bool" where
  "moves_ok g = (\<forall>kv \<in> set (playable_sets g). key_ok g (fst kv))"

text \<open>The invariant of the game between turns.\<close>

definition well_formed :: "game \<Rightarrow> bool" where
  "well_formed g = (disjoint_cards g \<and> sound_cards g \<and> moves_ok g)"

text \<open>
  The game a turn of \<open>simulate\<close> hands to \<open>find_playable_sets\<close>: the assignments of
  \<open>play_turn\<close> between the choice of the move and the rebuilding of the move table.
\<close>

definition turn_state :: "iter \<Rightarrow> game \<Rightarrow> int set \<Rightarrow> int \<Rightarrow> game" where
  "turn_state it g0 play payoff =
         (let g1 = update_players it g0 play;
              g2 = update_table it g1 play;
              gain = (if first g2 = current g2 then 1 else - 1);
              g3 = g2\<lparr>u := u g2 + gain * payoff\<rparr>;
              g4 = g3\<lparr>turn_payoffs := turn_payoffs g3 @ [u g3]\<rparr>;
              g5 = g4\<lparr>turn := turn g4 + 1\<rparr>;
              g6 = g5\<lparr>current := (if current g5 = A then B else A)\<rparr>
          in g6)"

text \<open>
  The states of the game between moves: the game as constructed, the game after
  \<open>update\<close> has applied a move of the move table that the active player can play, and
  the game after a turn of \<open>simulate\<close> under the three strategies the code names.
\<close>

inductive reachable :: "iter \<Rightarrow> game \<Rightarrow> bool" for it :: iter where
  dealt: "permutes_deck shuffle \<Longrightarrow> Game_init shuffle it nc nh nt cf d = Inr g \<Longrightarrow> reachable it g"
| moved: "reachable it g \<Longrightarrow> (k, w) \<in> set (playable_sets g) \<Longrightarrow>
          can_play_move (players g (current g)) k \<Longrightarrow> update it g k v = Inr g' \<Longrightarrow>
          reachable it g'"
| played: "reachable it g \<Longrightarrow> set strategies \<subseteq> {RANDOM, GREEDY, MINIMAX} \<Longrightarrow>
           play_turn it rs strategies prev g = Inr (pl, rs', g') \<Longrightarrow> reachable it g'"

section \<open>Derived card values\<close>

lemma app_if: "(if P then xs @ [x] else xs) = xs @ (if P then [x] else [])"
  by simp

lemma find_playable_cards_Inr:
  "c1 \<noteq> 0 \<Longrightarrow> c2 \<noteq> 0 \<Longrightarrow>
   find_playable_cards g c1 c2 =
     Inr ((if c1 + c2 > 1 \<and> c1 + c2 < num_cards g + 2 then [c1 + c2] else [])
        @ (if \<bar>c1 - c2\<bar> > 1 \<and> \<bar>c1 - c2\<bar> < num_cards g + 2 then [\<bar>c1 - c2\<bar>] else [])
        @ (if c1 * c2 > 1 \<and> c1 * c2 < num_cards g + 2 then [c1 * c2] else [])
        @ (if (c1 div c2 > 1 \<and> c1 div c2 < num_cards g + 2) \<and> c1 mod c2 = 0 then [c1 div c2] else [])
        @ (if (c2 div c1 > 1 \<and> c2 div c1 < num_cards g + 2) \<and> c2 mod c1 = 0 then [c2 div c1] else []))"
  unfolding find_playable_cards_def Let_def app_if
  by (simp split del: if_split)

lemma find_playable_cards_zero:
  "c1 = 0 \<or> c2 = 0 \<Longrightarrow> find_playable_cards g c1 c2 = Inl ZeroDivisionError"
  by (auto simp: find_playable_cards_def Let_def)

lemma card_range: "((1::int) < x \<and> x < n + 2) = (2 \<le> x \<and> x \<le> n + 1)"
  by presburger

lemma set_if_single: "set (if P then [x] else []) = {v. v = x \<and> P}"
  by (cases P) simp_all

lemma if_single_set: "(if P then {x} else {}) = {v. v = x \<and> P}"
  by auto

text \<open>
  C6. For two cards \<open>c1\<close>, \<open>c2\<close> (any two non-zero integers; a card is at least 2),
  \<open>find_playable_cards\<close> returns a list whose elements are exactly the values among
  \<open>c1 + c2\<close>, \<open>|c1 - c2|\<close>, \<open>c1 * c2\<close>, \<open>c1 / c2\<close> (when \<open>c2\<close> divides \<open>c1\<close>) and
  \<open>c2 / c1\<close> (when \<open>c1\<close> divides \<open>c2\<close>) that lie in \<open>[2, num_cards + 1]\<close>.
\<close>

theorem find_playable_cards_exact:
  "c1 \<noteq> 0 \<and> c2 \<noteq> 0 \<longrightarrow>
     (\<exists>pc. find_playable_cards g c1 c2 = Inr pc \<and>
        set pc = {v \<in> {c1 + c2, \<bar>c1 - c2\<bar>, c1 * c2}
                       \<union> (if c2 dvd c1 then {c1 div c2} else {})
                       \<union> (if c1 dvd c2 then {c2 div c1} else {}).
                  2 \<le> v \<and> v \<le> num_cards g + 1})"
proof (intro impI)
  assume nz: "c1 \<noteq> 0 \<and> c2 \<noteq> 0"
  let ?pc = "(if c1 + c2 > 1 \<and> c1 + c2 < num_cards g + 2 then [c1 + c2] else [])
        @ (if \<bar>c1 - c2\<bar> > 1 \<and> \<bar>c1 - c2\<bar> < num_cards g + 2 then [\<bar>c1 - c2\<bar>] else [])
        @ (if c1 * c2 > 1 \<and> c1 * c2 < num_cards g + 2 then [c1 * c2] else [])
        @ (if (c1 div c2 > 1 \<and> c1 div c2 < num_cards g + 2) \<and> c1 mod c2 = 0 then [c1 div c2] else [])
        @ (if (c2 div c1 > 1 \<and> c2 div c1 < num_cards g + 2) \<and> c2 mod c1 = 0 then [c2 div c1] else [])"
  have r: "find_playable_cards g c1 c2 = Inr ?pc"
    by (rule find_playable_cards_Inr) (use nz in simp_all)
  have "set ?pc = {v \<in> {c1 + c2, \<bar>c1 - c2\<bar>, c1 * c2}
                       \<union> (if c2 dvd c1 then {c1 div c2} else {})
                       \<union> (if c1 dvd c2 then {c2 div c1} else {}).
                  2 \<le> v \<and> v \<le> num_cards g + 1}"
    unfolding set_append set_if_single if_single_set card_range mod_eq_0_iff_dvd
    by (intro set_eqI) (simp only: Un_iff mem_Collect_eq insert_iff empty_iff, blast)
  with r show "\<exists>pc. find_playable_cards g c1 c2 = Inr pc \<and>
        set pc = {v \<in> {c1 + c2, \<bar>c1 - c2\<bar>, c1 * c2}
                       \<union> (if c2 dvd c1 then {c1 div c2} else {})
                       \<union> (if c1 dvd c2 then {c2 div c1} else {}).
                  2 \<le> v \<and> v \<le> num_cards g + 1}"
    by blast
qed

theorem find_playable_cards_exact_witness:
  "(6::int) \<noteq> 0 \<and> (3::int) \<noteq> 0 \<and>
   (\<exists>pc. find_playable_cards example_game 6 3 = Inr pc \<and> set pc = {9, 3, 2})"
  using find_playable_cards_exact [of 6 3 example_game]
  by (simp add: example_game_def) (auto simp: insert_commute)

section \<open>Payoff of a move\<close>

lemma fold_payoff_step:
  "fold (payoff_step p1 p2) xs a = a + sum_list (map (\<lambda>c. payoff_step p1 p2 c 0) xs)"
proof (induction xs arbitrary: a)
  case Nil
  then show ?case by simp
next
  case (Cons x xs)
  have "payoff_step p1 p2 x a = a + payoff_step p1 p2 x 0"
    by (simp add: payoff_step_def Let_def)
  with Cons show ?case by simp
qed

lemma payoff_step_range: "0 \<le> payoff_step p1 p2 c 0 \<and> payoff_step p1 p2 c 0 \<le> 4"
  by (simp add: payoff_step_def Let_def PRIME_SCORE_def COMPOSITE_SCORE_def)

lemma sum_payoff_step_range:
  "0 \<le> sum_list (map (\<lambda>c. payoff_step p1 p2 c 0) xs) \<and>
   sum_list (map (\<lambda>c. payoff_step p1 p2 c 0) xs) \<le> 4 * int (length xs)"
proof (induction xs)
  case Nil
  then show ?case by simp
next
  case (Cons x xs)
  with payoff_step_range [of p1 p2 x] show ?case by simp
qed

lemma calculate_move_payoff_nonneg: "0 \<le> calculate_move_payoff it g S"
  using sum_payoff_step_range
  by (simp add: calculate_move_payoff_def Let_def fold_payoff_step)

lemma enumerates_card3:
  assumes "enumerates it" "card S = 3"
  shows "set (it S) = S" "distinct (it S)" "length (it S) = 3"
proof -
  from assms(2) have fin: "finite S"
    by (metis card.infinite zero_neq_numeral)
  with assms(1) show e: "set (it S) = S" and d: "distinct (it S)"
    by (simp_all add: enumerates_def)
  from e d assms(2) show "length (it S) = 3"
    by (metis distinct_card)
qed

lemma calculate_move_payoff_le:
  assumes "enumerates it" "card S = 3"
  shows "calculate_move_payoff it g S \<le> 12"
proof -
  have "calculate_move_payoff it g S =
      sum_list (map (\<lambda>c. payoff_step (players g (current g)) (players g (other (current g))) c 0) (it S))"
    using assms(2) by (simp add: calculate_move_payoff_def Let_def fold_payoff_step)
  also have "\<dots> \<le> 4 * int (length (it S))"
    using sum_payoff_step_range by blast
  also have "\<dots> = 12"
    using enumerates_card3(3) [OF assms] by simp
  finally show ?thesis .
qed

lemma nonneg_dict_set: "nonneg_table d \<Longrightarrow> 0 \<le> v \<Longrightarrow> nonneg_table (dict_set d k v)"
  by (induction d k v rule: dict_set.induct) (auto simp: nonneg_table_def)

lemma nonneg_add_playable:
  "nonneg_table ps \<Longrightarrow> nonneg_table (add_playable it g c1 c2 c3 ps)"
  by (simp add: add_playable_def Let_def nonneg_dict_set calculate_move_payoff_nonneg)

lemma nonneg_fold_add_playable:
  "nonneg_table ps \<Longrightarrow> nonneg_table (fold (add_playable it g c1 c2) cs ps)"
  by (induction cs arbitrary: ps) (simp_all add: nonneg_add_playable)

lemma nonneg_pair_loop:
  "nonneg_table ps \<Longrightarrow> pair_loop it g prs ps = Inr ps' \<Longrightarrow> nonneg_table ps'"
proof (induction it g prs ps rule: pair_loop.induct)
  case (1 it g ps)
  then show ?case by simp
next
  case (2 it g c1 c2 rest ps)
  then show ?case
    by (auto split: sum.splits simp: nonneg_fold_add_playable)
qed

lemma nonneg_fold_single:
  "nonneg_table ps \<Longrightarrow> nonneg_table (fold (\<lambda>c ps. dict_set ps {c} 0) cs ps)"
  by (induction cs arbitrary: ps) (simp_all add: nonneg_dict_set)

lemma nonneg_find_playable_sets:
  "find_playable_sets it g = Inr g' \<Longrightarrow> nonneg_table (playable_sets g')"
proof -
  assume a: "find_playable_sets it g = Inr g'"
  then obtain ps where p: "pair_loop it g (pairs (it (table g))) [] = Inr ps"
    and g': "g' = g\<lparr>playable_sets :=
                      fold (\<lambda>c ps. dict_set ps {c} 0) (hand_list it (players g (current g))) ps\<rparr>"
    by (auto simp: find_playable_sets_def Let_def split: sum.splits)
  have "nonneg_table ps"
    using nonneg_pair_loop [OF _ p] by (simp add: nonneg_table_def)
  then show ?thesis
    by (simp add: g' nonneg_fold_single)
qed

text \<open>
  C5. \<open>calculate_move_payoff\<close> of a card set whose size is not 3 is 0. For a set of
  three cards it is the sum over the cards of the obtained leg (2 for a prime absent from
  the acting player's prime stack, else 1 for a composite absent from the acting player's
  composite stack) plus, independently, the stolen leg (2 for a prime in the opponent's
  prime stack, else 1 for a composite in the opponent's composite stack).
\<close>

theorem calculate_move_payoff_sum:
  "(card S \<noteq> 3 \<longrightarrow> calculate_move_payoff it g S = 0) \<and>
   (enumerates it \<and> card S = 3 \<longrightarrow>
      calculate_move_payoff it g S =
        (\<Sum>c\<in>S.
           (if is_prime c \<and> c \<notin> set (primes (players g (current g))) then 2
            else if \<not> is_prime c \<and> c \<notin> set (composites (players g (current g))) then 1
            else 0)
         + (if is_prime c \<and> c \<in> set (primes (players g (other (current g)))) then 2
            else if \<not> is_prime c \<and> c \<in> set (composites (players g (other (current g)))) then 1
            else 0)))"
proof (intro conjI impI)
  assume "card S \<noteq> 3"
  then show "calculate_move_payoff it g S = 0"
    by (simp add: calculate_move_payoff_def)
next
  assume h: "enumerates it \<and> card S = 3"
  then have e: "set (it S) = S" "distinct (it S)"
    using enumerates_card3 by blast+
  let ?p1 = "players g (current g)" and ?p2 = "players g (other (current g))"
  let ?f = "\<lambda>c. payoff_step ?p1 ?p2 c 0"
  let ?h = "\<lambda>c. (if is_prime c \<and> c \<notin> set (primes ?p1) then 2
            else if \<not> is_prime c \<and> c \<notin> set (composites ?p1) then 1
            else 0)
         + (if is_prime c \<and> c \<in> set (primes ?p2) then 2
            else if \<not> is_prime c \<and> c \<in> set (composites ?p2) then (1::int)
            else 0)"
  have fh: "?f = ?h"
    by (rule ext) (simp add: payoff_step_def Let_def PRIME_SCORE_def COMPOSITE_SCORE_def
        prime_contains_def composite_contains_def)
  have "calculate_move_payoff it g S = sum_list (map ?f (it S))"
    using h by (simp add: calculate_move_payoff_def Let_def fold_payoff_step)
  also have "\<dots> = sum ?f (set (it S))"
    using e(2) by (rule sum_list_distinct_conv_sum_set)
  also have "\<dots> = sum ?h S"
    unfolding fh e(1) ..
  finally show "calculate_move_payoff it g S = sum ?h S" .
qed

lemma enumerates_sorted: "enumerates sorted_list_of_set"
  by (simp add: enumerates_def)

lemma example_payoff_257: "calculate_move_payoff sorted_list_of_set example_game {2, 5, 7} = 6"
  by code_simp

lemma card_257: "card {2, 5, 7 :: int} = 3"
  by code_simp

theorem calculate_move_payoff_sum_witness:
  "card {3 :: int} \<noteq> 3 \<and>
   calculate_move_payoff sorted_list_of_set example_game {3} = 0 \<and>
   enumerates sorted_list_of_set \<and> card {2, 5, 7 :: int} = 3 \<and>
   calculate_move_payoff sorted_list_of_set example_game {2, 5, 7} = 6"
proof -
  have a: "card {3 :: int} \<noteq> 3"
    by simp
  with calculate_move_payoff_sum [of "{3}" sorted_list_of_set example_game]
  have "calculate_move_payoff sorted_list_of_set example_game {3} = 0"
    by blast
  with a show ?thesis
    by (simp add: enumerates_sorted card_257 example_payoff_257)
qed

text \<open>
  C10. \<open>calculate_move_payoff\<close> is never negative; for a set of three cards it is at
  most 12; and no entry of a move table built by \<open>find_playable_sets\<close> carries a
  negative payoff.
\<close>

theorem calculate_move_payoff_bounds:
  "0 \<le> calculate_move_payoff it g S \<and>
   (enumerates it \<and> card S = 3 \<longrightarrow> calculate_move_payoff it g S \<le> 12) \<and>
   (\<forall>g' k v. find_playable_sets it g = Inr g' \<and> (k, v) \<in> set (playable_sets g') \<longrightarrow> 0 \<le> v)"
proof (intro conjI allI impI)
  show "0 \<le> calculate_move_payoff it g S"
    by (rule calculate_move_payoff_nonneg)
next
  assume "enumerates it \<and> card S = 3"
  then show "calculate_move_payoff it g S \<le> 12"
    by (simp add: calculate_move_payoff_le)
next
  fix g' k v
  assume "find_playable_sets it g = Inr g' \<and> (k, v) \<in> set (playable_sets g')"
  then have "nonneg_table (playable_sets g')" "(k, v) \<in> set (playable_sets g')"
    using nonneg_find_playable_sets by blast+
  then show "0 \<le> v"
    by (auto simp: nonneg_table_def list_all_iff)
qed

lemma example_playable_sets:
  "map_sum id playable_sets (find_playable_sets sorted_list_of_set example_game)
   = Inr [({2, 7, 9}, 5), ({2, 5, 7}, 6), ({3}, 0), ({5}, 0), ({8}, 0), ({10}, 0)]"
  by code_simp

lemma map_sum_InrD: "map_sum id f x = Inr y \<Longrightarrow> \<exists>z. x = Inr z \<and> f z = y"
  by (cases x) auto

theorem calculate_move_payoff_bounds_witness:
  "0 \<le> calculate_move_payoff sorted_list_of_set example_game {2, 5, 7} \<and>
   enumerates sorted_list_of_set \<and> card {2, 5, 7 :: int} = 3 \<and>
   calculate_move_payoff sorted_list_of_set example_game {2, 5, 7} \<le> 12 \<and>
   (\<exists>g'. find_playable_sets sorted_list_of_set example_game = Inr g' \<and>
         ({2, 5, 7}, 6) \<in> set (playable_sets g') \<and> (0 :: int) \<le> 6)"
proof -
  from map_sum_InrD [OF example_playable_sets]
  obtain g' where g': "find_playable_sets sorted_list_of_set example_game = Inr g'"
    and ps: "playable_sets g' = [({2, 7, 9}, 5), ({2, 5, 7}, 6), ({3}, 0), ({5}, 0), ({8}, 0), ({10}, 0)]"
    by blast
  from ps have m: "({2, 5, 7}, 6) \<in> set (playable_sets g')"
    by simp
  from calculate_move_payoff_bounds [of sorted_list_of_set example_game "{2, 5, 7}"]
  have "0 \<le> calculate_move_payoff sorted_list_of_set example_game {2, 5, 7}"
    and "calculate_move_payoff sorted_list_of_set example_game {2, 5, 7} \<le> 12"
    by (simp_all add: enumerates_sorted card_257)
  with g' m show ?thesis
    by (auto simp: enumerates_sorted card_257)
qed

section \<open>Snapshot and rollback\<close>

lemma update_players_setup: "same_setup g (update_players it g cards)"
  unfolding update_players_def Let_def same_setup_def
  by (simp split: prod.splits)

lemma update_table_setup: "same_setup g (update_table it g cards)"
  unfolding update_table_def Let_def same_setup_def
  by simp

lemma find_playable_sets_setup: "find_playable_sets it g = Inr g' \<Longrightarrow> same_setup g g'"
  unfolding find_playable_sets_def Let_def same_setup_def
  by (auto split: sum.splits)

lemma same_setup_trans: "same_setup a b \<Longrightarrow> same_setup b c \<Longrightarrow> same_setup a c"
  by (simp add: same_setup_def)

lemma update_setup:
  assumes "update it g move payoff = Inr g'"
  shows "same_setup g g'"
proof -
  let ?g1 = "update_players it g move"
  let ?g2 = "update_table it ?g1 move"
  let ?g5 = "?g2\<lparr>u := u ?g2 + (if first ?g2 = current ?g2 then 1 else - 1) * payoff,
                 turn := turn ?g2 + 1,
                 current := (if current ?g2 = A then B else A)\<rparr>"
  from assms have "find_playable_sets it ?g5 = Inr g'"
    by (simp add: update_def Let_def)
  then have a: "same_setup ?g5 g'"
    by (rule find_playable_sets_setup)
  have "same_setup g ?g2"
    using update_players_setup update_table_setup same_setup_trans by blast
  then have "same_setup g ?g5"
    by (simp add: same_setup_def)
  from this a show ?thesis
    by (rule same_setup_trans)
qed

lemma rollback_snapshot:
  assumes "same_setup g g'"
  shows "rollback g' (GameState_init (players g) (table g) (u g) (turn g) (current g)
                        (playable_sets g) k v) = g"
  using assms
  by (intro game.equality) (simp_all add: rollback_def GameState_init_def same_setup_def)

text \<open>
  C1. Taking a snapshot of a game (\<open>GameState\<close>), applying a move with \<open>update\<close> and
  rolling back to the snapshot gives the game before the move: hands, stacks, table,
  \<open>u\<close>, turn, active player and move table, and every other attribute with them. The
  move and payoff need not come from the move table.
\<close>

theorem update_rollback_restores:
  "update it g k v = Inr g' \<longrightarrow>
   rollback g' (GameState_init (players g) (table g) (u g) (turn g) (current g)
                  (playable_sets g) k v) = g"
  using update_setup rollback_snapshot by blast

lemma example_update_turn:
  "map_sum id turn (update sorted_list_of_set example_game {2, 5, 7} 6) = Inr 2"
  by code_simp

theorem update_rollback_restores_witness:
  "\<exists>g'. update sorted_list_of_set example_game {2, 5, 7} 6 = Inr g' \<and>
     rollback g' (GameState_init (players example_game) (table example_game) (u example_game)
                    (turn example_game) (current example_game) (playable_sets example_game)
                    {2, 5, 7} 6) = example_game"
proof -
  from map_sum_InrD [OF example_update_turn]
  obtain g' where "update sorted_list_of_set example_game {2, 5, 7} 6 = Inr g'"
    by blast
  with update_rollback_restores [of sorted_list_of_set example_game "{2, 5, 7}" 6 g']
  show ?thesis
    by blast
qed

section \<open>The search terminates and restores the game\<close>

lemma update_rollback:
  "update it g k v = Inr g' \<Longrightarrow>
   rollback g' (GameState_init (players g) (table g) (u g) (turn g) (current g)
                  (playable_sets g) k v) = g"
  using update_setup rollback_snapshot by blast

lemma frame_partial:
  shows "minimax_max_loop_min_loop_dom (Inl (it, g, gss, al, be)) \<Longrightarrow>
         minimax it g gss al be = Inr (r, g', gss') \<Longrightarrow> g' = g \<and> gss' = gss"
    and "minimax_max_loop_min_loop_dom (Inr (Inl (it, g, gss, al, be, items, mm, mp))) \<Longrightarrow>
         max_loop it g gss al be items mm mp = Inr (r, g', gss') \<Longrightarrow> g' = g \<and> gss' = gss"
    and "minimax_max_loop_min_loop_dom (Inr (Inr (it, g, gss, al, be, items, mm, mp))) \<Longrightarrow>
         min_loop it g gss al be items mm mp = Inr (r, g', gss') \<Longrightarrow> g' = g \<and> gss' = gss"
proof (induction it g gss al be and it g gss al be items mm mp and it g gss al be items mm mp
       arbitrary: r g' gss' and r g' gss' and r g' gss'
       rule: minimax_max_loop_min_loop.pinduct)
  case (1 it g game_states alpha beta)
  then show ?case
    by (auto simp: minimax.psimps split: if_splits)
next
  case (2 it g game_states alpha beta minimax_move minimax_payoff)
  then show ?case
    by (simp add: max_loop.psimps)
next
  case (3 it g game_states alpha beta k v items minimax_move minimax_payoff)
  show ?case
  proof (cases "can_play_move (players g (current g)) k")
    case False
    with 3(1,5) have "max_loop it g game_states alpha beta items minimax_move minimax_payoff
                     = Inr (r, g', gss')"
      by (simp add: max_loop.psimps)
    with 3(4) False show ?thesis
      by blast
  next
    case True
    let ?snap = "GameState_init (players g) (table g) (u g) (turn g) (current g)
                   (playable_sets g) k v"
    from 3(1,5) True obtain g1 where u1: "update it g k v = Inr g1"
      by (auto simp: max_loop.psimps Let_def split: sum.splits)
    from 3(1,5) True u1 obtain nm np g2 gss2
      where m: "minimax it g1 (game_states @ [?snap]) alpha beta = Inr ((nm, np), g2, gss2)"
      by (auto simp: max_loop.psimps Let_def split: sum.splits)
    from 3(2) [OF True refl refl u1 m] have e: "g2 = g1" "gss2 = game_states @ [?snap]"
      by simp_all
    have rb: "rollback g1 ?snap = g"
      using u1 by (rule update_rollback)
    let ?payoff = "xadd np v"
    let ?p2 = "if xless minimax_payoff ?payoff then ?payoff else minimax_payoff"
    let ?m2 = "if xless minimax_payoff ?payoff then k
               else (if card minimax_move = 0 then k else minimax_move)"
    show ?thesis
    proof (cases "xle beta (xmax alpha ?p2)")
      case True
      with 3(1,5) \<open>can_play_move (players g (current g)) k\<close> u1 m e rb show ?thesis
        by (simp add: max_loop.psimps Let_def)
    next
      case False
      with 3(1,5) \<open>can_play_move (players g (current g)) k\<close> u1 m e rb
      have "max_loop it g game_states (xmax alpha ?p2) beta items ?m2 ?p2 = Inr (r, g', gss')"
        by (simp add: max_loop.psimps Let_def)
      moreover have "\<not> xle beta (xmax alpha ?p2)"
        using False .
      ultimately show ?thesis
        using 3(3) [OF \<open>can_play_move (players g (current g)) k\<close> refl refl u1 m refl refl refl
                      refl refl refl _ refl refl] e rb
        by simp
    qed
  qed
next
  case (4 it g game_states alpha beta minimax_move minimax_payoff)
  then show ?case
    by (simp add: min_loop.psimps)
next
  case (5 it g game_states alpha beta k v items minimax_move minimax_payoff)
  show ?case
  proof (cases "can_play_move (players g (current g)) k")
    case False
    with 5(1,5) have "min_loop it g game_states alpha beta items minimax_move minimax_payoff
                     = Inr (r, g', gss')"
      by (simp add: min_loop.psimps)
    with 5(4) False show ?thesis
      by blast
  next
    case True
    let ?snap = "GameState_init (players g) (table g) (u g) (turn g) (current g)
                   (playable_sets g) k v"
    from 5(1,5) True obtain g1 where u1: "update it g k v = Inr g1"
      by (auto simp: min_loop.psimps Let_def split: sum.splits)
    from 5(1,5) True u1 obtain nm np g2 gss2
      where m: "minimax it g1 (game_states @ [?snap]) alpha beta = Inr ((nm, np), g2, gss2)"
      by (auto simp: min_loop.psimps Let_def split: sum.splits)
    from 5(2) [OF True refl refl u1 m] have e: "g2 = g1" "gss2 = game_states @ [?snap]"
      by simp_all
    have rb: "rollback g1 ?snap = g"
      using u1 by (rule update_rollback)
    let ?payoff = "xsub np v"
    let ?p2 = "if xless ?payoff minimax_payoff then ?payoff else minimax_payoff"
    let ?m2 = "if xless ?payoff minimax_payoff then k
               else (if card minimax_move = 0 then k else minimax_move)"
    show ?thesis
    proof (cases "xle (xmin beta ?p2) alpha")
      case True
      with 5(1,5) \<open>can_play_move (players g (current g)) k\<close> u1 m e rb show ?thesis
        by (simp add: min_loop.psimps Let_def)
    next
      case False
      with 5(1,5) \<open>can_play_move (players g (current g)) k\<close> u1 m e rb
      have "min_loop it g game_states alpha (xmin beta ?p2) items ?m2 ?p2 = Inr (r, g', gss')"
        by (simp add: min_loop.psimps Let_def)
      moreover have "\<not> xle (xmin beta ?p2) alpha"
        using False .
      ultimately show ?thesis
        using 5(3) [OF \<open>can_play_move (players g (current g)) k\<close> refl refl u1 m refl refl refl
                      refl refl refl _ refl refl] e rb
        by simp
    qed
  qed
qed


lemma update_depth: "update it g k v = Inr g' \<Longrightarrow> depth g' = depth g"
  using update_setup by (simp add: same_setup_def)

lemma search_total: "All minimax_max_loop_min_loop_dom"
proof (rule "minimax_max_loop_min_loop.termination"
         [where R = "inv_image (less_than <*lex*> less_than) search_measure"], goal_cases)
  case 1
  show ?case by (intro wf_inv_image wf_lex_prod wf_less_than)
next
  case (2 it g game_states alpha beta)
  then show ?case
    by (simp add: search_measure_def)
next
  case (3 it g game_states alpha beta)
  then show ?case
    by (simp add: search_measure_def)
next
  case (4 it g game_states alpha beta k v items minimax_move minimax_payoff x xa b)
  then show ?case
    by (auto simp: search_measure_def dest!: update_depth)
next
  case (5 it g game_states alpha beta k v items minimax_move minimax_payoff x xa b ba xaa y xab ya
       xac yb xad xae xaf xb xc)
  from 5 have m: "minimax it b (game_states @ [xa]) alpha beta = Inr ((xab, ya), xac, yb)"
    by simp
  from 5 have d: "minimax_max_loop_min_loop_dom (Inl (it, b, game_states @ [xa], alpha, beta))"
    by blast
  from frame_partial(1) [OF d m] have "xac = b" "yb = game_states @ [xa]"
    by simp_all
  moreover have "rollback b xa = g"
    using 5 update_rollback by simp
  ultimately show ?case
    using 5 by (simp add: search_measure_def)
next
  case (6 it g game_states alpha beta k v items minimax_move minimax_payoff)
  then show ?case
    by (simp add: search_measure_def)
next
  case (7 it g game_states alpha beta k v items minimax_move minimax_payoff x xa b)
  then show ?case
    by (auto simp: search_measure_def dest!: update_depth)
next
  case (8 it g game_states alpha beta k v items minimax_move minimax_payoff x xa b ba xaa y xab ya
       xac yb xad xae xaf xb xc)
  from 8 have m: "minimax it b (game_states @ [xa]) alpha beta = Inr ((xab, ya), xac, yb)"
    by simp
  from 8 have d: "minimax_max_loop_min_loop_dom (Inl (it, b, game_states @ [xa], alpha, beta))"
    by blast
  from frame_partial(1) [OF d m] have "xac = b" "yb = game_states @ [xa]"
    by simp_all
  moreover have "rollback b xa = g"
    using 8 update_rollback by simp
  ultimately show ?case
    using 8 by (simp add: search_measure_def)
next
  case (9 it g game_states alpha beta k v items minimax_move minimax_payoff)
  then show ?case
    by (simp add: search_measure_def)
qed


termination minimax
  by (rule search_total)

lemma minimax_frame:
  "minimax it g gss al be = Inr (r, g', gss') \<Longrightarrow> g' = g \<and> gss' = gss"
  using frame_partial(1) search_total by blast

lemma max_loop_frame:
  "max_loop it g gss al be items mm mp = Inr (r, g', gss') \<Longrightarrow> g' = g \<and> gss' = gss"
  using frame_partial(2) search_total by blast

lemma min_loop_frame:
  "min_loop it g gss al be items mm mp = Inr (r, g', gss') \<Longrightarrow> g' = g \<and> gss' = gss"
  using frame_partial(3) search_total by blast

text \<open>
  C2. A call of \<open>minimax\<close> that returns leaves the game (hands, stacks, table, \<open>u\<close>,
  turn, active player, move table) and the list of snapshots as they were at the call,
  whichever way the loop ended: each iteration pops its snapshot and rolls back before
  the cutoff test.
\<close>

theorem minimax_restores_state:
  "minimax it g gss al be = Inr (r, g', gss') \<longrightarrow> g' = g \<and> gss' = gss"
  using frame_partial(1) search_total by blast

lemma example_minimax:
  "map_sum id fst (minimax sorted_list_of_set example_game [] NegInf PosInf)
   = Inr ({2, 5, 7}, Fin (- 6))"
  by code_simp

lemma map_sum_fst_InrD: "map_sum id fst x = Inr y \<Longrightarrow> \<exists>z. x = Inr (y, z)"
  by (cases x) auto

theorem minimax_restores_state_witness:
  "minimax sorted_list_of_set example_game [] NegInf PosInf
   = Inr (({2, 5, 7}, Fin (- 6)), example_game, [])"
proof -
  from map_sum_fst_InrD [OF example_minimax]
  obtain z where z: "minimax sorted_list_of_set example_game [] NegInf PosInf
                     = Inr (({2, 5, 7}, Fin (- 6)), z)"
    by blast
  obtain g' gss' where "z = (g', gss')"
    by (cases z)
  with z minimax_restores_state
         [of sorted_list_of_set example_game "[]" NegInf PosInf "({2, 5, 7}, Fin (- 6))" g' gss']
  show ?thesis
    by simp
qed

section \<open>A node without a playable move\<close>

lemma max_loop_none:
  "no_playable g items \<Longrightarrow> max_loop it g gss al be items mm mp = Inr ((mm, mp), g, gss)"
  by (induction items) (auto simp: no_playable_def)

lemma min_loop_none:
  "no_playable g items \<Longrightarrow> min_loop it g gss al be items mm mp = Inr ((mm, mp), g, gss)"
  by (induction items) (auto simp: no_playable_def)

text \<open>
  C3, as the code has it. At a node that is not terminal (the game is not over and the
  depth bound is not reached) where the active player can play no move of the move
  table, \<open>minimax\<close> returns the empty move with the value its loop started from:
  \<open>float("-inf")\<close> on a maximizing layer (even turn), \<open>float("+inf")\<close> on a minimizing one.
\<close>

theorem minimax_no_playable:
  "\<not> is_over g \<and> int (length gss) < depth g \<and> no_playable g (playable_sets g) \<longrightarrow>
   minimax it g gss al be =
     Inr (({}, if turn g mod 2 = 0 then NegInf else PosInf), g, gss)"
  by (simp add: max_loop_none min_loop_none)

lemma stuck_not_over: "\<not> is_over stuck_game"
  by code_simp

lemma stuck_no_playable: "no_playable stuck_game (playable_sets stuck_game)"
  by code_simp

lemma stuck_depth: "depth stuck_game = 2"
  by code_simp

lemma stuck_turn: "turn stuck_game mod 2 = 1"
  by code_simp

theorem minimax_no_playable_witness:
  "\<not> is_over stuck_game \<and> int (length ([] :: GameState list)) < depth stuck_game \<and>
   no_playable stuck_game (playable_sets stuck_game) \<and>
   minimax sorted_list_of_set stuck_game [] NegInf PosInf = Inr (({}, PosInf), stuck_game, [])"
  using minimax_no_playable [of stuck_game "[]" sorted_list_of_set NegInf PosInf]
  by (simp add: stuck_not_over stuck_no_playable stuck_depth stuck_turn)

text \<open>
  The claim as stated fails at \<open>stuck_game\<close>: the node is not terminal, no move is
  playable, and the payoff returned is \<open>float("+inf")\<close>, not 0.
\<close>

theorem minimax_no_playable_counterexample:
  "\<not> is_over stuck_game \<and> int (length ([] :: GameState list)) < depth stuck_game \<and>
   no_playable stuck_game (playable_sets stuck_game) \<and>
   map_sum id fst (minimax sorted_list_of_set stuck_game [] NegInf PosInf) = Inr ({}, PosInf) \<and>
   map_sum id fst (minimax sorted_list_of_set stuck_game [] NegInf PosInf) \<noteq> Inr ({}, Fin 0)"
  by (simp add: stuck_not_over stuck_no_playable stuck_depth stuck_turn
      max_loop_none min_loop_none)

section \<open>Construction of the engine\<close>

lemma deal_loop_deals:
  assumes "distinct cards" "2 * n \<le> length cards"
    "set cards \<inter> (hand pA \<union> hand pB) = {}" "hand pA \<inter> hand pB = {}"
    "finite (hand pA)" "finite (hand pB)"
  shows "\<exists>rest pA' pB'. deal_loop n cards pA pB = Inr (rest, pA', pB') \<and>
           distinct rest \<and> length rest + 2 * n = length cards \<and>
           set rest \<union> hand pA' \<union> hand pB' = set cards \<union> hand pA \<union> hand pB \<and>
           set rest \<inter> (hand pA' \<union> hand pB') = {} \<and> hand pA' \<inter> hand pB' = {} \<and>
           finite (hand pA') \<and> finite (hand pB') \<and>
           card (hand pA') = card (hand pA) + n \<and> card (hand pB') = card (hand pB) + n \<and>
           primes pA' = primes pA \<and> composites pA' = composites pA \<and>
           primes pB' = primes pB \<and> composites pB' = composites pB"
  using assms
proof (induction n arbitrary: cards pA pB)
  case 0
  then show ?case by simp
next
  case (Suc n)
  from Suc.prems(2) have len: "2 \<le> length cards"
    by simp
  then obtain xs a where xs: "cards = xs @ [a]"
    by (cases cards rule: rev_cases) auto
  with len obtain ys b where "xs = ys @ [b]"
    by (cases xs rule: rev_cases) auto
  with xs have c: "cards = ys @ [b, a]"
    by simp
  let ?pA = "add_hand pA a" and ?pB = "add_hand pB b"
  have step: "deal_loop (Suc n) cards pA pB = deal_loop n ys ?pA ?pB"
    by (simp add: c Let_def butlast_append)
  have d: "distinct ys" "a \<notin> set ys" "b \<notin> set ys" "a \<noteq> b"
    using Suc.prems(1) by (auto simp: c)
  have ab: "a \<notin> hand pA" "a \<notin> hand pB" "b \<notin> hand pA" "b \<notin> hand pB"
    using Suc.prems(3) by (auto simp: c)
  have p: "distinct ys" "2 * n \<le> length ys"
    "set ys \<inter> (hand ?pA \<union> hand ?pB) = {}" "hand ?pA \<inter> hand ?pB = {}"
    "finite (hand ?pA)" "finite (hand ?pB)"
    using Suc.prems d ab by (auto simp: c add_hand_def)
  from Suc.IH [OF p] obtain rest pA' pB' where
    r: "deal_loop n ys ?pA ?pB = Inr (rest, pA', pB')"
      "distinct rest" "length rest + 2 * n = length ys"
      "set rest \<union> hand pA' \<union> hand pB' = set ys \<union> hand ?pA \<union> hand ?pB"
      "set rest \<inter> (hand pA' \<union> hand pB') = {}" "hand pA' \<inter> hand pB' = {}"
      "finite (hand pA')" "finite (hand pB')"
      "card (hand pA') = card (hand ?pA) + n" "card (hand pB') = card (hand ?pB) + n"
      "primes pA' = primes ?pA" "composites pA' = composites ?pA"
      "primes pB' = primes ?pB" "composites pB' = composites ?pB"
    by blast
  have "card (hand ?pA) = Suc (card (hand pA))" "card (hand ?pB) = Suc (card (hand pB))"
    using ab Suc.prems(5,6) by (simp_all add: add_hand_def)
  with r step show ?case
    by (auto simp: c add_hand_def)
qed


lemma find_playable_cards_error:
  "find_playable_cards g c1 c2 = Inl e \<Longrightarrow> e = ZeroDivisionError"
  by (cases "c1 = 0 \<or> c2 = 0") (auto simp: find_playable_cards_zero find_playable_cards_Inr)

lemma pair_loop_error: "pair_loop it g prs ps = Inl e \<Longrightarrow> e = ZeroDivisionError"
proof (induction it g prs ps rule: pair_loop.induct)
  case (1 it g ps)
  then show ?case by simp
next
  case (2 it g c1 c2 rest ps)
  then show ?case
    by (auto split: sum.splits dest: find_playable_cards_error)
qed

lemma find_playable_sets_error: "find_playable_sets it g = Inl e \<Longrightarrow> e = ZeroDivisionError"
  by (auto simp: find_playable_sets_def Let_def split: sum.splits dest: pair_loop_error)

lemma set_pairs: "(a, b) \<in> set (pairs xs) \<Longrightarrow> a \<in> set xs \<and> b \<in> set xs"
  by (induction xs) auto

lemma pair_loop_ok:
  "(\<And>a b. (a, b) \<in> set prs \<Longrightarrow> a \<noteq> 0 \<and> b \<noteq> 0) \<Longrightarrow> \<exists>ps'. pair_loop it g prs ps = Inr ps'"
proof (induction it g prs ps rule: pair_loop.induct)
  case (1 it g ps)
  then show ?case by simp
next
  case (2 it g c1 c2 rest ps)
  then have "c1 \<noteq> 0" "c2 \<noteq> 0"
    by auto
  then obtain pcs where "find_playable_cards g c1 c2 = Inr pcs"
    using find_playable_cards_Inr by blast
  with 2 show ?case
    by auto
qed

lemma find_playable_sets_ok:
  assumes "enumerates it" "finite (table g)" "0 \<notin> table g"
  shows "\<exists>ps. find_playable_sets it g = Inr (g\<lparr>playable_sets := ps\<rparr>)"
proof -
  from assms have "set (it (table g)) = table g"
    by (simp add: enumerates_def)
  with assms(3) have "\<And>a b. (a, b) \<in> set (pairs (it (table g))) \<Longrightarrow> a \<noteq> 0 \<and> b \<noteq> 0"
    using set_pairs by metis
  from pair_loop_ok [OF this] obtain ps'
    where "pair_loop it g (pairs (it (table g))) [] = Inr ps'"
    by blast
  then show ?thesis
    by (intro exI [of _ "fold (\<lambda>c ps. dict_set ps {c} 0) (hand_list it (players g (current g))) ps'"])
      (simp add: find_playable_sets_def Let_def)
qed

lemma deal_loop_error: "deal_loop n cards pA pB = Inl e \<Longrightarrow> e = IndexError"
  by (induction n cards pA pB rule: deal_loop.induct) (auto simp: Let_def split: if_splits)

lemma deal_cards_error: "deal_cards shuffle g = Inl e \<Longrightarrow> e = IndexError"
  by (auto simp: deal_cards_def Let_def split: sum.splits dest: deal_loop_error)

lemma find_first_player_error: "find_first_player g = Inl e \<Longrightarrow> e = ValueError"
  by (auto simp: find_first_player_def min_hand_def Let_def split: sum.splits if_splits)

lemma reset_error: "reset shuffle it g \<noteq> Inl SystemExit"
  by (auto simp: reset_def Let_def split: sum.splits
      dest: deal_cards_error find_first_player_error find_playable_sets_error)

lemma deal_cards_ok:
  assumes "permutes_deck shuffle" "num_cards g = num_hand g * 2 + num_table g"
    "0 \<le> num_hand g" "0 \<le> num_table g"
    "hand (players g A) = {}" "hand (players g B) = {}"
  shows "\<exists>g'. deal_cards shuffle g = Inr g' \<and> finite (table g') \<and> 0 \<notin> table g' \<and>
           card (hand (players g' A)) = nat (num_hand g) \<and>
           card (hand (players g' B)) = nat (num_hand g) \<and>
           change_first g' = change_first g"
proof -
  let ?cards = "shuffle [2..num_cards g + 1]"
  from assms(1) have d: "distinct ?cards" and s: "set ?cards = {2..num_cards g + 1}"
    by (simp_all add: permutes_deck_def)
  have "length ?cards = card {2..num_cards g + 1}"
    using d s distinct_card by metis
  with assms(2,3,4) have l: "2 * nat (num_hand g) \<le> length ?cards"
    by simp
  from deal_loop_deals [OF d l, of "players g A" "players g B"] assms(5,6)
  obtain rest pA' pB' where
    r: "deal_loop (nat (num_hand g)) ?cards (players g A) (players g B) = Inr (rest, pA', pB')"
      "set rest \<union> hand pA' \<union> hand pB' = set ?cards"
      "card (hand pA') = nat (num_hand g)" "card (hand pB') = nat (num_hand g)"
    by auto
  from r(2) s have "set rest \<subseteq> {2..num_cards g + 1}"
    by blast
  then have "0 \<notin> set rest"
    by auto
  with r show ?thesis
    by (simp add: deal_cards_def Let_def)
qed

text \<open>
  C9, as the code has it. The constructor stops the process with \<open>sys.exit()\<close> exactly
  when \<open>num_cards \<noteq> 2 * num_hand + num_table\<close>. For a coherent configuration with at least
  one card in each hand and no negative table size it returns a game, whatever the
  shuffle and the iteration order of sets.
\<close>

theorem construction:
  "(Game_init shuffle it nc nh nt cf d = Inl SystemExit \<longleftrightarrow> nc \<noteq> nh * 2 + nt) \<and>
   (enumerates it \<and> permutes_deck shuffle \<and> nc = nh * 2 + nt \<and> 1 \<le> nh \<and> 0 \<le> nt \<longrightarrow>
      (\<exists>g. Game_init shuffle it nc nh nt cf d = Inr g))"
proof (intro conjI impI)
  show "Game_init shuffle it nc nh nt cf d = Inl SystemExit \<longleftrightarrow> nc \<noteq> nh * 2 + nt"
    by (simp add: Game_init_def reset_error)
next
  assume a: "enumerates it \<and> permutes_deck shuffle \<and> nc = nh * 2 + nt \<and> 1 \<le> nh \<and> 0 \<le> nt"
  let ?g0 = "\<lparr>num_cards = nc, num_hand = nh, num_table = nt, change_first = cf, depth = d,
              turn = 1, u = 0, players = (\<lambda>p. Player), table = {}, turn_payoffs = [],
              first = A, current = A, playable_sets = []\<rparr>"
  let ?g1 = "?g0\<lparr>turn := 1, u := 0, players := (\<lambda>p. Player), table := {}, turn_payoffs := []\<rparr>"
  from a have "\<exists>g'. deal_cards shuffle ?g1 = Inr g' \<and> finite (table g') \<and> 0 \<notin> table g' \<and>
           card (hand (players g' A)) = nat (num_hand ?g1) \<and>
           card (hand (players g' B)) = nat (num_hand ?g1) \<and>
           change_first g' = change_first ?g1"
    by (intro deal_cards_ok) (simp_all add: Player_def)
  then obtain g2 where g2: "deal_cards shuffle ?g1 = Inr g2" "finite (table g2)" "0 \<notin> table g2"
    "card (hand (players g2 A)) = nat nh" "card (hand (players g2 B)) = nat nh"
    by auto
  from g2(4,5) a have ne: "hand (players g2 A) \<noteq> {}" "hand (players g2 B) \<noteq> {}"
    by auto
  then have "\<exists>g3. find_first_player g2 = Inr g3 \<and> table g3 = table g2"
    by (cases "change_first g2") (simp_all add: find_first_player_def min_hand_def Let_def)
  then obtain g3 where g3: "find_first_player g2 = Inr g3" "table g3 = table g2"
    by blast
  from find_playable_sets_ok [of it g3] a g2(2,3) g3(2)
  obtain ps where "find_playable_sets it g3 = Inr (g3\<lparr>playable_sets := ps\<rparr>)"
    by auto
  with a g2(1) g3(1) show "\<exists>g. Game_init shuffle it nc nh nt cf d = Inr g"
    by (simp add: Game_init_def reset_def Let_def)
qed

lemma map_sum_InlD: "map_sum id f x = Inl e \<Longrightarrow> x = Inl e"
  by (cases x) auto

lemma permutes_deck_rev: "permutes_deck rev"
  by (simp add: permutes_deck_def)

theorem construction_witness:
  "Game_init rev sorted_list_of_set 10 4 3 True 2 = Inl SystemExit \<and> (10 :: int) \<noteq> 4 * 2 + 3 \<and>
   enumerates sorted_list_of_set \<and> permutes_deck rev \<and> (10 :: int) = 4 * 2 + 2 \<and>
   (1 :: int) \<le> 4 \<and> (0 :: int) \<le> 2 \<and>
   (\<exists>g. Game_init rev sorted_list_of_set 10 4 2 True 2 = Inr g)"
  using construction [of rev sorted_list_of_set 10 4 3 True 2]
    construction [of rev sorted_list_of_set 10 4 2 True 2]
  by (simp add: enumerates_sorted permutes_deck_rev)

text \<open>
  The claim as stated fails for the coherent configuration \<open>num_cards = 2\<close>,
  \<open>num_hand = 0\<close>, \<open>num_table = 2\<close> with \<open>change_first\<close>: \<open>find_first_player\<close> takes the
  minimum of an empty hand, which raises \<open>ValueError\<close>.
\<close>

lemma example_empty_hands:
  "map_sum id turn (Game_init (\<lambda>xs. xs) sorted_list_of_set 2 0 2 True 1) = Inl ValueError"
  by code_simp

theorem construction_counterexample:
  "(2 :: int) = 0 * 2 + 2 \<and>
   Game_init (\<lambda>xs. xs) sorted_list_of_set 2 0 2 True 1 = Inl ValueError"
  using map_sum_InlD [OF example_empty_hands] by simp

section \<open>Pruned and plain search\<close>


section \<open>Effect of a move on hands, stacks and table\<close>

lemma remove_stacks_props:
  assumes "typed_stacks p"
  shows "typed_stacks (remove_stacks p c)"
    and "stack_cards (remove_stacks p c) = stack_cards p - {c}"
    and "hand (remove_stacks p c) = hand p"
  using assms
  by (auto simp: typed_stacks_def stack_cards_def remove_stacks_def remove_prime_def
      remove_composite_def prime_contains_def composite_contains_def list_all_iff
      dest: notin_set_remove1)

lemma add_stacks_props:
  assumes "typed_stacks p"
  shows "typed_stacks (add_stacks p c)"
    and "stack_cards (add_stacks p c) = insert c (stack_cards p)"
    and "hand (add_stacks p c) = hand p"
  using assms
  by (auto simp: typed_stacks_def stack_cards_def add_stacks_def add_prime_def add_composite_def
      remove_prime_def remove_composite_def prime_contains_def composite_contains_def list_all_iff
      dest: notin_set_remove1)

lemma remove_hand_props:
  "hand (remove_hand p c) = hand p - {c}"
  "primes (remove_hand p c) = primes p"
  "composites (remove_hand p c) = composites p"
  by (auto simp: remove_hand_def)

lemma remove_hand_stacks:
  "typed_stacks (remove_hand p c) = typed_stacks p"
  "stack_cards (remove_hand p c) = stack_cards p"
  by (simp_all add: typed_stacks_def stack_cards_def remove_hand_props)

lemma first_loop_triple:
  assumes "card cards = 3" "typed_stacks q1" "typed_stacks q2"
    "fold (\<lambda>c (q1, q2).
             if card cards = 3
             then (remove_hand (remove_stacks q1 c) c, remove_stacks q2 c)
             else (remove_hand q1 c, q2)) xs (q1, q2) = (r1, r2)"
  shows "typed_stacks r1 \<and> typed_stacks r2 \<and>
         stack_cards r1 = stack_cards q1 - set xs \<and> hand r1 = hand q1 - set xs \<and>
         stack_cards r2 = stack_cards q2 - set xs \<and> hand r2 = hand q2"
  using assms
proof (induction xs arbitrary: q1 q2)
  case Nil
  then show ?case by simp
next
  case (Cons x xs)
  let ?q1 = "remove_hand (remove_stacks q1 x) x" and ?q2 = "remove_stacks q2 x"
  have t: "typed_stacks ?q1" "typed_stacks ?q2"
    using Cons.prems(2,3) by (simp_all add: remove_hand_stacks remove_stacks_props)
  from Cons.prems(1,4) have "fold (\<lambda>c (q1, q2).
             if card cards = 3
             then (remove_hand (remove_stacks q1 c) c, remove_stacks q2 c)
             else (remove_hand q1 c, q2)) xs (?q1, ?q2) = (r1, r2)"
    by simp
  from Cons.IH [OF Cons.prems(1) t this] show ?case
    using Cons.prems(2,3)
    by (auto simp: remove_hand_stacks remove_hand_props remove_stacks_props)
qed

lemma first_loop_single:
  assumes "card cards \<noteq> 3"
    "fold (\<lambda>c (q1, q2).
             if card cards = 3
             then (remove_hand (remove_stacks q1 c) c, remove_stacks q2 c)
             else (remove_hand q1 c, q2)) xs (q1, q2) = (r1, r2)"
  shows "r2 = q2 \<and> hand r1 = hand q1 - set xs \<and> primes r1 = primes q1 \<and>
         composites r1 = composites q1"
  using assms
proof (induction xs arbitrary: q1)
  case Nil
  then show ?case by simp
next
  case (Cons x xs)
  from Cons.prems have "fold (\<lambda>c (q1, q2).
             if card cards = 3
             then (remove_hand (remove_stacks q1 c) c, remove_stacks q2 c)
             else (remove_hand q1 c, q2)) xs (remove_hand q1 x, q2) = (r1, r2)"
    by simp
  from Cons.IH [OF Cons.prems(1) this] show ?case
    by (auto simp: remove_hand_props)
qed

lemma add_loop:
  "typed_stacks q \<Longrightarrow>
   typed_stacks (fold (\<lambda>c q. add_stacks q c) xs q) \<and>
   stack_cards (fold (\<lambda>c q. add_stacks q c) xs q) = stack_cards q \<union> set xs \<and>
   hand (fold (\<lambda>c q. add_stacks q c) xs q) = hand q"
proof (induction xs arbitrary: q)
  case Nil
  then show ?case by simp
next
  case (Cons x xs)
  from Cons.IH [of "add_stacks q x"] Cons.prems show ?case
    by (auto simp: add_stacks_props)
qed

lemma last_prime_in: "obtain_last_prime p \<noteq> - 1 \<Longrightarrow> obtain_last_prime p \<in> stack_cards p"
  by (auto simp: obtain_last_prime_def stack_cards_def split: if_splits)

lemma last_composite_in:
  "obtain_last_composite p \<noteq> - 1 \<Longrightarrow> obtain_last_composite p \<in> stack_cards p"
  by (auto simp: obtain_last_composite_def stack_cards_def split: if_splits)

lemma other_neq [simp]: "other p \<noteq> p" "p \<noteq> other p"
  by (cases p; simp)+

lemma update_players_table: "table (update_players it g cards) \<subseteq> table g"
  by (auto simp: update_players_def Let_def split: prod.splits if_splits)

lemma update_players_players:
  assumes "fold (\<lambda>c (q1, q2).
             if card cards = 3
             then (remove_hand (remove_stacks q1 c) c, remove_stacks q2 c)
             else (remove_hand q1 c, q2)) (it cards)
             (players g (current g), players g (other (current g))) = (r1, r2)"
  shows "players (update_players it g cards) (current g)
           = (if card cards = 3 then fold (\<lambda>c q. add_stacks q c) (it cards) r1 else r1)"
    and "players (update_players it g cards) (other (current g)) = r2"
  using assms by (simp_all add: update_players_def Let_def)

lemma update_players_fields:
  "current (update_players it g cards) = current g"
  "first (update_players it g cards) = first g"
  "u (update_players it g cards) = u g"
  "turn (update_players it g cards) = turn g"
  "turn_payoffs (update_players it g cards) = turn_payoffs g"
  "playable_sets (update_players it g cards) = playable_sets g"
  by (simp_all add: update_players_def Let_def split: prod.splits)

lemma update_table_fields:
  "players (update_table it g cards) = players g"
  "current (update_table it g cards) = current g"
  "first (update_table it g cards) = first g"
  "u (update_table it g cards) = u g"
  "turn (update_table it g cards) = turn g"
  "turn_payoffs (update_table it g cards) = turn_payoffs g"
  "playable_sets (update_table it g cards) = playable_sets g"
  by (simp_all add: update_table_def Let_def)

lemma insert_unless_none:
  "(if x \<noteq> - 1 then insert x t else t) = t \<union> ({x} - {- 1 :: int})"
  by auto

lemma table_loop_add:
  "fold (\<lambda>c t. insert c (if c \<in> t then t - {c} else t)) xs t = t \<union> set xs"
  by (induction xs arbitrary: t) auto

lemma table_loop_remove:
  "fold (\<lambda>c t. if c \<in> t then t - {c} else t) xs t = t - set xs"
  by (induction xs arbitrary: t) auto

lemma update_table_eq:
  "table (update_table it g cards)
     = (if card cards \<noteq> 3 then table g \<union> set (it cards) else table g - set (it cards))
       \<union> ({obtain_last_prime (players g (current g))} - {- 1})
       \<union> ({obtain_last_composite (players g (current g))} - {- 1})
       \<union> ({obtain_last_prime (players g (other (current g)))} - {- 1})
       \<union> ({obtain_last_composite (players g (other (current g)))} - {- 1})"
  unfolding update_table_def insert_unless_none Let_def
  by (simp add: table_loop_add table_loop_remove)

lemma update_table_table:
  "table (update_table it g cards)
     \<subseteq> (if card cards \<noteq> 3 then table g \<union> set (it cards) else table g - set (it cards))
       \<union> stack_cards (players g (current g)) \<union> stack_cards (players g (other (current g)))"
proof -
  let ?p1 = "players g (current g)" and ?p2 = "players g (other (current g))"
  have "{obtain_last_prime ?p1} - {- 1} \<subseteq> stack_cards ?p1"
    "{obtain_last_composite ?p1} - {- 1} \<subseteq> stack_cards ?p1"
    "{obtain_last_prime ?p2} - {- 1} \<subseteq> stack_cards ?p2"
    "{obtain_last_composite ?p2} - {- 1} \<subseteq> stack_cards ?p2"
    using last_prime_in last_composite_in by auto
  then show ?thesis
    unfolding update_table_eq by blast
qed

lemma update_table_finite:
  "finite (table g) \<Longrightarrow> finite (table (update_table it g cards))"
  unfolding update_table_eq by simp

section \<open>A move keeps the cards apart\<close>

lemma disjoint_board_sym: "disjoint_board t p q = disjoint_board t q p"
  by (auto simp: disjoint_board_def)

lemma sound_board_sym: "sound_board t p q = sound_board t q p"
  by (auto simp: sound_board_def)

lemma disjoint_cards_current:
  "disjoint_cards g
     = disjoint_board (table g) (players g (current g)) (players g (other (current g)))"
  by (cases "current g") (simp_all add: disjoint_cards_def disjoint_board_sym)

lemma sound_cards_current:
  "sound_cards g = sound_board (table g) (players g (current g)) (players g (other (current g)))"
  by (cases "current g") (simp_all add: sound_cards_def sound_board_sym)

lemma typed_disjoint: "typed_stacks p \<Longrightarrow> set (primes p) \<inter> set (composites p) = {}"
  by (auto simp: typed_stacks_def list_all_iff)

lemma enumerates_set: "enumerates it \<Longrightarrow> finite S \<Longrightarrow> set (it S) = S"
  by (simp add: enumerates_def)

lemma move_step:
  assumes it: "enumerates it" and k: "finite k" "\<forall>c\<in>k. 2 \<le> c"
    and p: "p1 = players g (current g)" "p2 = players g (other (current g))"
    and k2: "k \<inter> hand p2 = {}"
    and d: "disjoint_board (table g) p1 p2" and s: "sound_board (table g) p1 p2"
    and g2: "g2 = update_table it (update_players it g k) k"
  shows "disjoint_board (table g2) (players g2 (current g)) (players g2 (other (current g)))"
    and "sound_board (table g2) (players g2 (current g)) (players g2 (other (current g)))"
    and "hand (players g2 (current g)) = hand p1 - k"
    and "hand (players g2 (other (current g))) = hand p2"
proof -
  let ?g1 = "update_players it g k"
  let ?F = "\<lambda>c (q1, q2).
             if card k = 3
             then (remove_hand (remove_stacks q1 c) c, remove_stacks q2 c)
             else (remove_hand q1 c, q2)"
  have xs: "set (it k) = k"
    using it k(1) by (rule enumerates_set)
  obtain r1 r2 where f: "fold ?F (it k) (p1, p2) = (r1, r2)"
    by (cases "fold ?F (it k) (p1, p2)")
  let ?q1 = "if card k = 3 then fold (\<lambda>c q. add_stacks q c) (it k) r1 else r1"
  from f p have pl1: "players ?g1 (current g) = ?q1" "players ?g1 (other (current g)) = r2"
    using update_players_players [of k it g r1 r2] by simp_all
  have pl: "players g2 (current g) = ?q1" "players g2 (other (current g)) = r2"
    by (simp_all add: g2 update_table_fields pl1)
  from s have ty: "typed_stacks p1" "typed_stacks p2"
    by (simp_all add: sound_board_def)
  have q: "typed_stacks ?q1 \<and> typed_stacks r2 \<and> hand ?q1 = hand p1 - k \<and> hand r2 = hand p2 \<and>
           stack_cards ?q1 = (if card k = 3 then stack_cards p1 \<union> k else stack_cards p1) \<and>
           stack_cards r2 = (if card k = 3 then stack_cards p2 - k else stack_cards p2)"
  proof (cases "card k = 3")
    case True
    from first_loop_triple [OF True ty f] xs
    have a: "typed_stacks r1" "typed_stacks r2" "stack_cards r1 = stack_cards p1 - k"
      "hand r1 = hand p1 - k" "stack_cards r2 = stack_cards p2 - k" "hand r2 = hand p2"
      by simp_all
    from add_loop [OF a(1), of "it k"] xs a True show ?thesis
      by auto
  next
    case False
    from first_loop_single [OF False f] xs
    have a: "r2 = p2" "hand r1 = hand p1 - k" "primes r1 = primes p1"
      "composites r1 = composites p1"
      by simp_all
    with ty False show ?thesis
      by (simp add: typed_stacks_def stack_cards_def)
  qed
  have t1: "table ?g1 \<subseteq> table g"
    by (rule update_players_table)
  have "table g2 \<subseteq> (if card k \<noteq> 3 then table ?g1 \<union> set (it k) else table ?g1 - set (it k))
                    \<union> stack_cards (players ?g1 (current ?g1))
                    \<union> stack_cards (players ?g1 (other (current ?g1)))"
    unfolding g2 by (rule update_table_table)
  with t1 xs pl1 have t2: "table g2 \<subseteq> (if card k \<noteq> 3 then table g \<union> k else table g - k)
                    \<union> stack_cards ?q1 \<union> stack_cards r2"
    by (auto simp: update_players_fields split: if_splits)
  have fin: "finite (table g2)"
    unfolding g2 using s t1
    by (intro update_table_finite) (auto simp: sound_board_def intro: finite_subset)
  show "hand (players g2 (current g)) = hand p1 - k"
    and "hand (players g2 (other (current g))) = hand p2"
    using pl q by simp_all
  show "disjoint_board (table g2) (players g2 (current g)) (players g2 (other (current g)))"
    unfolding pl disjoint_board_def
    using q t2 d k2 typed_disjoint [of ?q1] typed_disjoint [of r2]
    by (auto simp: disjoint_board_def split: if_splits)
  show "sound_board (table g2) (players g2 (current g)) (players g2 (other (current g)))"
    unfolding pl sound_board_def
    using q t2 s k fin
    by (auto simp: sound_board_def split: if_splits)
qed

section \<open>The move table of a well-formed game\<close>

lemma dict_set_keys:
  "(\<forall>kv \<in> set d. P (fst kv)) \<Longrightarrow> P k \<Longrightarrow> \<forall>kv \<in> set (dict_set d k v). P (fst kv)"
  by (induction d k v rule: dict_set.induct) auto

lemma find_playable_cards_ge2:
  assumes "find_playable_cards g c1 c2 = Inr pcs" "c \<in> set pcs"
  shows "2 \<le> c"
proof -
  from assms(1) have nz: "c1 \<noteq> 0" "c2 \<noteq> 0"
    using find_playable_cards_zero [of c1 c2 g] by auto
  from assms show ?thesis
    unfolding find_playable_cards_Inr [OF nz] card_range
    by (auto split: if_splits)
qed

lemma add_playable_keys:
  assumes "\<forall>kv \<in> set ps. key_ok g (fst kv)" "c1 \<in> table g" "c2 \<in> table g"
    "2 \<le> c1" "2 \<le> c2" "2 \<le> c3"
  shows "\<forall>kv \<in> set (add_playable it g' c1 c2 c3 ps). key_ok g (fst kv)"
proof -
  have "key_ok g {c1, c2, c3}"
    unfolding key_ok_def using assms(2-6) by (intro conjI disjI2 exI [of _ c3]) auto
  with assms(1) show ?thesis
    by (simp add: add_playable_def Let_def dict_set_keys)
qed

lemma fold_add_playable_keys:
  assumes "\<forall>kv \<in> set ps. key_ok g (fst kv)" "c1 \<in> table g" "c2 \<in> table g"
    "2 \<le> c1" "2 \<le> c2" "\<forall>c3 \<in> set cs. 2 \<le> c3"
  shows "\<forall>kv \<in> set (fold (add_playable it g' c1 c2) cs ps). key_ok g (fst kv)"
  using assms
proof (induction cs arbitrary: ps)
  case Nil
  then show ?case by simp
next
  case (Cons c cs)
  from Cons.prems have "\<forall>kv \<in> set (add_playable it g' c1 c2 c ps). key_ok g (fst kv)"
    by (intro add_playable_keys) simp_all
  from Cons.IH [OF this] Cons.prems show ?case
    by simp
qed

lemma pair_loop_keys:
  assumes "\<forall>kv \<in> set ps. key_ok g (fst kv)"
    "\<forall>pr \<in> set prs. fst pr \<in> table g \<and> snd pr \<in> table g \<and> 2 \<le> fst pr \<and> 2 \<le> snd pr"
  shows "\<exists>ps'. pair_loop it g' prs ps = Inr ps' \<and> (\<forall>kv \<in> set ps'. key_ok g (fst kv))"
  using assms
proof (induction it g' prs ps rule: pair_loop.induct)
  case (1 it g' ps)
  then show ?case by simp
next
  case (2 it g' c1 c2 rest ps)
  from 2(3) have c: "c1 \<in> table g" "c2 \<in> table g" "2 \<le> c1" "2 \<le> c2"
    by simp_all
  then have "c1 \<noteq> 0" "c2 \<noteq> 0"
    by auto
  then obtain pcs where pcs: "find_playable_cards g' c1 c2 = Inr pcs"
    using find_playable_cards_Inr by blast
  then have "\<forall>c3 \<in> set pcs. 2 \<le> c3"
    using find_playable_cards_ge2 by blast
  with 2(2) c have "\<forall>kv \<in> set (fold (add_playable it g' c1 c2) pcs ps). key_ok g (fst kv)"
    by (intro fold_add_playable_keys)
  from 2(1) [OF pcs this] 2(3) pcs show ?case
    by simp
qed

lemma fold_single_keys:
  assumes "\<forall>kv \<in> set ps. key_ok g (fst kv)"
    "\<forall>c \<in> set cs. c \<in> hand (players g (current g)) \<and> 2 \<le> c"
  shows "\<forall>kv \<in> set (fold (\<lambda>c ps. dict_set ps {c} 0) cs ps). key_ok g (fst kv)"
  using assms
proof (induction cs arbitrary: ps)
  case Nil
  then show ?case by simp
next
  case (Cons c cs)
  from Cons.prems(2) have "key_ok g {c}"
    by (simp add: key_ok_def)
  with Cons.prems(1) have "\<forall>kv \<in> set (dict_set ps {c} 0). key_ok g (fst kv)"
    by (rule dict_set_keys)
  from Cons.IH [OF this] Cons.prems(2) show ?case
    by simp
qed

lemma key_ok_cong:
  "table g' = table g \<Longrightarrow> players g' = players g \<Longrightarrow> current g' = current g \<Longrightarrow>
   key_ok g' k = key_ok g k"
  by (simp add: key_ok_def)

lemma find_playable_sets_well_formed:
  assumes "enumerates it" "sound_cards g" "disjoint_cards g"
  shows "\<exists>g'. find_playable_sets it g = Inr g' \<and> well_formed g' \<and>
           players g' = players g \<and> table g' = table g \<and> current g' = current g \<and>
           turn g' = turn g \<and> turn_payoffs g' = turn_payoffs g \<and> u g' = u g \<and>
           first g' = first g"
proof -
  from assms(2) have s: "sound_board (table g) (players g (current g))
                           (players g (other (current g)))"
    by (simp add: sound_cards_current)
  then have fin: "finite (table g)" "finite (hand (players g (current g)))"
    and ge: "\<forall>c \<in> table g. 2 \<le> c" "\<forall>c \<in> hand (players g (current g)). 2 \<le> c"
    by (auto simp: sound_board_def)
  from assms(1) fin have e: "set (it (table g)) = table g"
    "set (it (hand (players g (current g)))) = hand (players g (current g))"
    by (simp_all add: enumerates_set)
  have "\<forall>pr \<in> set (pairs (it (table g))).
          fst pr \<in> table g \<and> snd pr \<in> table g \<and> 2 \<le> fst pr \<and> 2 \<le> snd pr"
    using set_pairs e(1) ge(1) by (metis prod.collapse)
  from pair_loop_keys [of "[]" g "pairs (it (table g))" it g, OF _ this]
  obtain ps' where ps': "pair_loop it g (pairs (it (table g))) [] = Inr ps'"
      "\<forall>kv \<in> set ps'. key_ok g (fst kv)"
    by auto
  let ?ps = "fold (\<lambda>c ps. dict_set ps {c} 0) (hand_list it (players g (current g))) ps'"
  let ?g' = "g\<lparr>playable_sets := ?ps\<rparr>"
  have "\<forall>kv \<in> set ?ps. key_ok g (fst kv)"
    using ps'(2) e(2) ge(2) by (intro fold_single_keys) (simp_all add: hand_list_def)
  then have "moves_ok ?g'"
    by (simp add: moves_ok_def key_ok_def)
  moreover have "find_playable_sets it g = Inr ?g'"
    using ps'(1) by (simp add: find_playable_sets_def Let_def)
  moreover have "disjoint_cards ?g'" "sound_cards ?g'"
    using assms(2,3) by (simp_all add: disjoint_cards_def sound_cards_def)
  ultimately show ?thesis
    by (simp add: well_formed_def)
qed

lemma key_playable:
  assumes "disjoint_board t p1 p2" "finite (hand p1)"
    "finite k" "(\<exists>c \<in> hand p1. k = {c}) \<or> (\<exists>c. k - {c} \<subseteq> t)" "can_play_move p1 k"
  shows "k \<inter> hand p2 = {}" and "\<exists>c. hand p1 \<inter> k = {c}"
proof -
  from assms(2,5) have ne: "hand p1 \<inter> k \<noteq> {}"
    by (auto simp: can_play_move_def)
  from assms(1) have d: "hand p1 \<inter> hand p2 = {}" "hand p1 \<inter> t = {}" "hand p2 \<inter> t = {}"
    by (auto simp: disjoint_board_def)
  from assms(4) show "k \<inter> hand p2 = {}"
  proof
    assume "\<exists>c \<in> hand p1. k = {c}"
    with d show ?thesis by auto
  next
    assume "\<exists>c. k - {c} \<subseteq> t"
    then obtain c where c: "k - {c} \<subseteq> t" ..
    with d ne have "c \<in> hand p1"
      by auto
    with c d show ?thesis
      by auto
  qed
  from assms(4) show "\<exists>c. hand p1 \<inter> k = {c}"
  proof
    assume "\<exists>c \<in> hand p1. k = {c}"
    then show ?thesis by auto
  next
    assume "\<exists>c. k - {c} \<subseteq> t"
    then obtain c where c: "k - {c} \<subseteq> t" ..
    with d ne have "hand p1 \<inter> k = {c}"
      by auto
    then show ?thesis ..
  qed
qed

section \<open>A turn keeps the game well-formed\<close>

lemma disjoint_board_AB:
  "disjoint_board t (pl A) (pl B) = disjoint_board t (pl c) (pl (other c))"
  by (cases c) (simp_all add: disjoint_board_sym)

lemma sound_board_AB:
  "sound_board t (pl A) (pl B) = sound_board t (pl c) (pl (other c))"
  by (cases c) (simp_all add: sound_board_sym)

lemma flip_current: "(if c = A then B else A) = other c"
  by (cases c) simp_all

lemma apply_move:
  assumes it: "enumerates it" and wf: "well_formed g"
    and k: "finite k" "\<forall>c\<in>k. 2 \<le> c" "k \<inter> hand (players g (other (current g))) = {}"
    and g2: "g2 = update_table it (update_players it g k) k"
    and g5: "players g5 = players g2" "table g5 = table g2" "current g5 = other (current g)"
  shows "\<exists>g'. find_playable_sets it g5 = Inr g' \<and> well_formed g' \<and>
           current g' = other (current g) \<and>
           hand (players g' (current g)) = hand (players g (current g)) - k \<and>
           hand (players g' (other (current g))) = hand (players g (other (current g))) \<and>
           turn g' = turn g5 \<and> turn_payoffs g' = turn_payoffs g5 \<and> u g' = u g5 \<and>
           first g' = first g5"
proof -
  let ?p1 = "players g (current g)" and ?p2 = "players g (other (current g))"
  from wf have d: "disjoint_board (table g) ?p1 ?p2" and s: "sound_board (table g) ?p1 ?p2"
    by (simp_all add: well_formed_def disjoint_cards_current sound_cards_current)
  note st = move_step [OF it k(1,2) refl refl k(3) d s g2]
  have "disjoint_cards g5" "sound_cards g5"
    unfolding disjoint_cards_def sound_cards_def g5
    using st(1,2) disjoint_board_AB [of "table g2" "players g2" "current g"]
      sound_board_AB [of "table g2" "players g2" "current g"]
    by simp_all
  from find_playable_sets_well_formed [OF it this(2,1)] st(3,4) g5 show ?thesis
    by auto
qed

lemma update_well_formed:
  assumes "enumerates it" "well_formed g" "finite k" "\<forall>c\<in>k. 2 \<le> c"
    "k \<inter> hand (players g (other (current g))) = {}"
  shows "\<exists>g'. update it g k v = Inr g' \<and> well_formed g' \<and>
           current g' = other (current g) \<and>
           hand (players g' (current g)) = hand (players g (current g)) - k \<and>
           hand (players g' (other (current g))) = hand (players g (other (current g))) \<and>
           turn g' = turn g + 1 \<and> first g' = first g"
proof -
  let ?g2 = "update_table it (update_players it g k) k"
  let ?g5 = "?g2\<lparr>u := u ?g2 + (if first ?g2 = current ?g2 then 1 else - 1) * v,
                 turn := turn ?g2 + 1,
                 current := (if current ?g2 = A then B else A)\<rparr>"
  have c: "current ?g2 = current g" "turn ?g2 = turn g" "first ?g2 = first g"
    by (simp_all add: update_table_fields update_players_fields)
  have "\<exists>g'. find_playable_sets it ?g5 = Inr g' \<and> well_formed g' \<and>
           current g' = other (current g) \<and>
           hand (players g' (current g)) = hand (players g (current g)) - k \<and>
           hand (players g' (other (current g))) = hand (players g (other (current g))) \<and>
           turn g' = turn ?g5 \<and> turn_payoffs g' = turn_payoffs ?g5 \<and> u g' = u ?g5 \<and>
           first g' = first ?g5"
    using assms by (intro apply_move [where ?g2.0 = ?g2]) (simp_all add: c flip_current)
  then show ?thesis
    by (auto simp: update_def Let_def c)
qed

lemma key_ok_move:
  assumes "well_formed g" "key_ok g k" "can_play_move (players g (current g)) k"
  shows "finite k" "\<forall>c\<in>k. 2 \<le> c" "k \<inter> hand (players g (other (current g))) = {}"
    "\<exists>c. hand (players g (current g)) \<inter> k = {c}"
proof -
  let ?p1 = "players g (current g)" and ?p2 = "players g (other (current g))"
  from assms(1) have d: "disjoint_board (table g) ?p1 ?p2" and s: "sound_board (table g) ?p1 ?p2"
    by (simp_all add: well_formed_def disjoint_cards_current sound_cards_current)
  from assms(2) show f: "finite k" and "\<forall>c\<in>k. 2 \<le> c"
    by (simp_all add: key_ok_def)
  from s have "finite (hand ?p1)"
    by (simp add: sound_board_def)
  from key_playable [OF d this f _ assms(3)] assms(2)
  show "k \<inter> hand ?p2 = {}" "\<exists>c. hand ?p1 \<inter> k = {c}"
    by (simp_all add: key_ok_def)
qed

section \<open>The heuristic strategies play moves of the table\<close>

lemma greedy_fold:
  "fold (\<lambda>(k, v) (max_move, max_payoff).
           if can_play_move p k \<and> v > max_payoff then (k, v) else (max_move, max_payoff))
     items (m0, p0) = (m, pay) \<Longrightarrow>
   m = m0 \<or> (\<exists>v. (m, v) \<in> set items \<and> can_play_move p m)"
proof (induction items arbitrary: m0 p0)
  case Nil
  then show ?case by simp
next
  case (Cons kv items)
  obtain k v where kv: "kv = (k, v)"
    by (cases kv)
  show ?case
  proof (cases "can_play_move p k \<and> v > p0")
    case True
    with Cons.prems kv have "fold (\<lambda>(k, v) (max_move, max_payoff).
           if can_play_move p k \<and> v > max_payoff then (k, v) else (max_move, max_payoff))
     items (k, v) = (m, pay)"
      by simp
    from Cons.IH [OF this] True kv show ?thesis
      by auto
  next
    case False
    with Cons.prems kv have "fold (\<lambda>(k, v) (max_move, max_payoff).
           if can_play_move p k \<and> v > max_payoff then (k, v) else (max_move, max_payoff))
     items (m0, p0) = (m, pay)"
      by auto
    from Cons.IH [OF this] show ?thesis
      by auto
  qed
qed

lemma random_card:
  assumes "enumerates it" "finite (hand p)" "hand p \<noteq> {}"
  shows "\<exists>c. get_random_card it r p = Inr c \<and> c \<in> hand p"
proof -
  from assms have s: "set (it (hand p)) = hand p"
    by (simp add: enumerates_set)
  with assms(3) have ne: "it (hand p) \<noteq> []"
    by auto
  then have "it (hand p) ! (r mod length (it (hand p))) \<in> set (it (hand p))"
    by simp
  with s ne show ?thesis
    by (simp add: get_random_card_def Let_def)
qed

lemma single_playable:
  assumes "well_formed g" "c \<in> hand (players g (current g))"
  shows "key_ok g {c}" "can_play_move (players g (current g)) {c}"
proof -
  from assms(1) have "sound_board (table g) (players g (current g))
                        (players g (other (current g)))"
    by (simp add: well_formed_def sound_cards_current)
  with assms(2) have "2 \<le> c"
    by (auto simp: sound_board_def)
  with assms(2) show "key_ok g {c}"
    by (simp add: key_ok_def)
  from assms(2) have "hand (players g (current g)) \<inter> {c} = {c}"
    by auto
  then show "can_play_move (players g (current g)) {c}"
    by (simp add: can_play_move_def)
qed

lemma greedy_play_ok:
  assumes "enumerates it" "well_formed g" "hand (players g (current g)) \<noteq> {}"
  shows "\<exists>k v. greedy_play it r g = Inr (k, v) \<and> key_ok g k \<and>
           can_play_move (players g (current g)) k"
proof -
  let ?p = "players g (current g)"
  from assms(2) have "sound_board (table g) ?p (players g (other (current g)))"
    by (simp add: well_formed_def sound_cards_current)
  then have "finite (hand ?p)"
    by (simp add: sound_board_def)
  from random_card [OF assms(1) this assms(3)]
  obtain c where c: "get_random_card it r ?p = Inr c" "c \<in> hand ?p"
    by blast
  let ?F = "\<lambda>(k, v) (max_move, max_payoff).
           if can_play_move ?p k \<and> v > max_payoff then (k, v) else (max_move, max_payoff)"
  obtain m pay where f: "fold ?F (playable_sets g) ({c}, 0) = (m, pay)"
    by (cases "fold ?F (playable_sets g) ({c}, 0)")
  from greedy_fold [OF f] have "key_ok g m \<and> can_play_move ?p m"
  proof
    assume "m = {c}"
    with single_playable [OF assms(2) c(2)] show ?thesis
      by simp
  next
    assume "\<exists>v. (m, v) \<in> set (playable_sets g) \<and> can_play_move ?p m"
    with assms(2) show ?thesis
      by (auto simp: well_formed_def moves_ok_def)
  qed
  with c(1) f show ?thesis
    by (simp add: greedy_play_def Let_def)
qed

lemma random_play_ok:
  assumes "enumerates it" "well_formed g" "hand (players g (current g)) \<noteq> {}"
  shows "\<exists>k v. random_play it r g = Inr (k, v) \<and> key_ok g k \<and>
           can_play_move (players g (current g)) k"
proof -
  let ?p = "players g (current g)"
  from assms(2) have "sound_board (table g) ?p (players g (other (current g)))"
    by (simp add: well_formed_def sound_cards_current)
  then have fin: "finite (hand ?p)"
    by (simp add: sound_board_def)
  from random_card [OF assms(1) this assms(3)]
  obtain c where c: "get_random_card it r ?p = Inr c" "c \<in> hand ?p"
    by blast
  show ?thesis
  proof (cases "find (\<lambda>(k, v). c \<in> k) (playable_sets g)")
    case None
    with c single_playable [OF assms(2) c(2)] show ?thesis
      by (simp add: random_play_def)
  next
    case (Some kv)
    obtain k v where kv: "kv = (k, v)"
      by (cases kv)
    from Some kv have m: "(k, v) \<in> set (playable_sets g)" "c \<in> k"
      by (auto simp: find_Some_iff in_set_conv_nth)
    with assms(2) have ok: "key_ok g k"
      by (auto simp: well_formed_def moves_ok_def)
    from m(2) c(2) have "hand ?p \<inter> k \<noteq> {}"
      by auto
    with fin have "can_play_move ?p k"
      by (simp add: can_play_move_def)
    with ok c(1) Some kv show ?thesis
      by (simp add: random_play_def)
  qed
qed

section \<open>A simulation of two greedy players\<close>

lemma play_turn_eq:
  assumes "choose_play it rs strategies prev g = Inr (Some (k, v), rs', g0)"
  shows "play_turn it rs strategies prev g
           = (case find_playable_sets it (turn_state it g0 k v) of
                Inl e \<Rightarrow> Inl e
              | Inr g7 \<Rightarrow> Inr (Some (k, v), rs', g7))"
  unfolding play_turn_def turn_state_def assms
  by (simp only: sum.case prod.case option.case Let_def)

lemma turn_state_fields:
  "players (turn_state it g k v) = players (update_table it (update_players it g k) k)"
  "table (turn_state it g k v) = table (update_table it (update_players it g k) k)"
  "current (turn_state it g k v) = other (current g)"
  "turn (turn_state it g k v) = turn g + 1"
  "length (turn_payoffs (turn_state it g k v)) = length (turn_payoffs g) + 1"
  "first (turn_state it g k v) = first g"
  unfolding turn_state_def Let_def
  by (simp_all add: update_table_fields update_players_fields flip_current split del: if_split)

lemma play_move:
  assumes it: "enumerates it" and wf: "well_formed g"
    and k: "finite k" "\<forall>c\<in>k. 2 \<le> c" "k \<inter> hand (players g (other (current g))) = {}"
    and ch: "choose_play it rs strategies prev g = Inr (Some (k, v), rs', g)"
  shows "\<exists>g'. play_turn it rs strategies prev g = Inr (Some (k, v), rs', g') \<and>
           well_formed g' \<and> current g' = other (current g) \<and>
           hand (players g' (current g)) = hand (players g (current g)) - k \<and>
           hand (players g' (other (current g))) = hand (players g (other (current g))) \<and>
           turn g' = turn g + 1 \<and> length (turn_payoffs g') = length (turn_payoffs g) + 1 \<and>
           first g' = first g"
proof -
  let ?g6 = "turn_state it g k v"
  from apply_move [OF it wf k refl turn_state_fields(1,2,3)]
  obtain g' where g': "find_playable_sets it ?g6 = Inr g'" "well_formed g'"
      "current g' = other (current g)"
      "hand (players g' (current g)) = hand (players g (current g)) - k"
      "hand (players g' (other (current g))) = hand (players g (other (current g)))"
      "turn g' = turn ?g6" "turn_payoffs g' = turn_payoffs ?g6" "first g' = first ?g6"
    by blast
  have "play_turn it rs strategies prev g = Inr (Some (k, v), rs', g')"
    by (simp add: play_turn_eq [OF ch] g'(1))
  with g'(2-8) show ?thesis
    by (simp add: turn_state_fields)
qed

lemma strategy_names: "GREEDY \<noteq> RANDOM" "MINIMAX \<noteq> RANDOM" "MINIMAX \<noteq> GREEDY"
  by (simp_all add: GREEDY_def RANDOM_def MINIMAX_def)

lemma idx_less: "nat (idx c) < 2"
  by (cases c) simp_all

lemma card_remove_one:
  assumes "finite h" "h \<inter> k = {c}"
  shows "card (h - k) + 1 = card h"
proof -
  from assms(2) have "h - k = h - {c}" "c \<in> h"
    by auto
  with assms(1) show ?thesis
    by (metis card_Suc_Diff1 Suc_eq_plus1)
qed

lemma choose_greedy:
  assumes "strategies ! nat (idx (current g)) = GREEDY" "nat (idx (current g)) < length strategies"
    "greedy_play it (rs 0) g = Inr pl"
  shows "choose_play it rs strategies prev g = Inr (Some pl, (\<lambda>i. rs (Suc i)), g)"
  using assms by (simp add: choose_play_def Let_def strategy_names)

lemma greedy_turn:
  assumes it: "enumerates it" and wf: "well_formed g"
    and ne: "hand (players g (current g)) \<noteq> {}"
  shows "\<exists>pl rs' g'. play_turn it rs [GREEDY, GREEDY] prev g = Inr (pl, rs', g') \<and>
           well_formed g' \<and> current g' = other (current g) \<and>
           card (hand (players g' (current g))) + 1 = card (hand (players g (current g))) \<and>
           hand (players g' (other (current g))) = hand (players g (other (current g))) \<and>
           turn g' = turn g + 1 \<and> length (turn_payoffs g') = length (turn_payoffs g) + 1 \<and>
           first g' = first g"
proof -
  from greedy_play_ok [OF it wf ne, of "rs 0"]
  obtain k v where g: "greedy_play it (rs 0) g = Inr (k, v)" "key_ok g k"
      "can_play_move (players g (current g)) k"
    by blast
  have s: "[GREEDY, GREEDY] ! nat (idx (current g)) = GREEDY"
    by (cases "current g") simp_all
  have l: "nat (idx (current g)) < length [GREEDY, GREEDY]"
    using idx_less [of "current g"] by simp
  have ch: "choose_play it rs [GREEDY, GREEDY] prev g
            = Inr (Some (k, v), (\<lambda>i. rs (Suc i)), g)"
    using s l g(1) by (rule choose_greedy [where rs = rs and pl = "(k, v)"])
  note m = key_ok_move [OF wf g(2,3)]
  from wf have "finite (hand (players g (current g)))"
    by (simp add: well_formed_def sound_cards_current sound_board_def)
  from m(4) obtain c0 where "hand (players g (current g)) \<inter> k = {c0}" ..
  with \<open>finite (hand (players g (current g)))\<close>
  have c: "card (hand (players g (current g)) - k) + 1 = card (hand (players g (current g)))"
    by (rule card_remove_one)
  from play_move [OF it wf m(1,2,3) ch]
  obtain g' where g': "play_turn it rs [GREEDY, GREEDY] prev g
                        = Inr (Some (k, v), (\<lambda>i. rs (Suc i)), g')"
      "well_formed g'" "current g' = other (current g)"
      "hand (players g' (current g)) = hand (players g (current g)) - k"
      "hand (players g' (other (current g))) = hand (players g (other (current g)))"
      "turn g' = turn g + 1" "length (turn_payoffs g') = length (turn_payoffs g) + 1"
      "first g' = first g"
    by blast
  from g'(4) c have "card (hand (players g' (current g))) + 1
                     = card (hand (players g (current g)))"
    by simp
  with g'(1,2,3,5,6,7,8) show ?thesis
    by (intro exI conjI)
qed

lemma is_over_current:
  "is_over g \<longleftrightarrow> card (hand (players g (current g))) = 0 \<and>
                card (hand (players g (other (current g)))) = 0"
  by (cases "current g") (auto simp: is_over_def is_hand_empty_def Let_def)

lemma greedy_run:
  assumes "enumerates it" "well_formed g"
    "card (hand (players g (current g))) = a" "card (hand (players g (other (current g)))) = b"
    "a = b \<or> a = b + 1" "n = a + b"
  shows "\<exists>g'. simulate_loop it rs [GREEDY, GREEDY] prev g
                = Some (Inr ((idx (first g'), get_winner g', u g'), g')) \<and>
           is_over g' \<and> turn g' = turn g + int n \<and>
           length (turn_payoffs g') = length (turn_payoffs g) + n \<and> first g' = first g"
  using assms
proof (induction n arbitrary: g a b rs prev)
  case 0
  then have "is_over g"
    by (simp add: is_over_current)
  then show ?case
    by (subst simulate_loop.simps) simp
next
  case (Suc n)
  from Suc.prems(5,6) have a: "0 < a"
    by auto
  with Suc.prems(3) have no: "\<not> is_over g"
    by (simp add: is_over_current)
  from a Suc.prems(3) have ne: "hand (players g (current g)) \<noteq> {}"
    by (metis card.empty less_numeral_extra(3))
  from greedy_turn [OF Suc.prems(1,2) ne, of rs prev]
  obtain pl rs' g1 where t: "play_turn it rs [GREEDY, GREEDY] prev g = Inr (pl, rs', g1)"
      "well_formed g1" "current g1 = other (current g)"
      "card (hand (players g1 (current g))) + 1 = card (hand (players g (current g)))"
      "hand (players g1 (other (current g))) = hand (players g (other (current g)))"
      "turn g1 = turn g + 1" "length (turn_payoffs g1) = length (turn_payoffs g) + 1"
      "first g1 = first g"
    by blast
  have oo: "other (other (current g)) = current g"
    by (cases "current g") simp_all
  have c1: "card (hand (players g1 (current g1))) = b"
    "card (hand (players g1 (other (current g1)))) = a - 1"
    using t(3,4,5) Suc.prems(3,4) oo by simp_all
  have "b = (a - 1) \<or> b = (a - 1) + 1" "n = b + (a - 1)"
    using Suc.prems(5,6) a by auto
  from Suc.IH [OF Suc.prems(1) t(2) c1 this, of rs' pl]
  obtain g' where r: "simulate_loop it rs' [GREEDY, GREEDY] pl g1
                = Some (Inr ((idx (first g'), get_winner g', u g'), g'))"
      "is_over g'" "turn g' = turn g1 + int n"
      "length (turn_payoffs g') = length (turn_payoffs g1) + n" "first g' = first g1"
    by blast
  have "simulate_loop it rs [GREEDY, GREEDY] prev g
          = Some (Inr ((idx (first g'), get_winner g', u g'), g'))"
    by (subst simulate_loop.simps) (simp add: no t(1) r(1))
  with r t(6,7,8) show ?case
    by auto
qed

section \<open>The simulation of the ten-card game\<close>

lemma deal_cards_well_formed:
  assumes "permutes_deck shuffle" "num_cards g = num_hand g * 2 + num_table g"
    "0 \<le> num_hand g" "0 \<le> num_table g" "players g = (\<lambda>p. Player)"
  shows "\<exists>g'. deal_cards shuffle g = Inr g' \<and> disjoint_cards g' \<and> sound_cards g' \<and>
           card (hand (players g' A)) = nat (num_hand g) \<and>
           card (hand (players g' B)) = nat (num_hand g) \<and>
           change_first g' = change_first g \<and> turn g' = turn g \<and>
           turn_payoffs g' = turn_payoffs g"
proof -
  let ?cards = "shuffle [2..num_cards g + 1]"
  from assms(1) have d: "distinct ?cards" and s: "set ?cards = {2..num_cards g + 1}"
    by (simp_all add: permutes_deck_def)
  have "length ?cards = card {2..num_cards g + 1}"
    using d s distinct_card by metis
  with assms(2,3,4) have l: "2 * nat (num_hand g) \<le> length ?cards"
    by simp
  have e: "hand Player = {}" "primes Player = []" "composites Player = []"
    by (simp_all add: Player_def)
  from deal_loop_deals [OF d l, of Player Player] e
  obtain rest pA' pB' where
    r: "deal_loop (nat (num_hand g)) ?cards Player Player = Inr (rest, pA', pB')"
      "set rest \<union> hand pA' \<union> hand pB' = set ?cards"
      "set rest \<inter> (hand pA' \<union> hand pB') = {}" "hand pA' \<inter> hand pB' = {}"
      "finite (hand pA')" "finite (hand pB')"
      "card (hand pA') = nat (num_hand g)" "card (hand pB') = nat (num_hand g)"
      "primes pA' = []" "composites pA' = []" "primes pB' = []" "composites pB' = []"
    by auto
  let ?g' = "g\<lparr>players := (players g)(A := pA', B := pB'), table := set rest\<rparr>"
  have dc: "deal_cards shuffle g = Inr ?g'"
    using r(1) by (simp add: deal_cards_def Let_def assms(5))
  from r(2) s have ge: "\<forall>c \<in> set rest \<union> hand pA' \<union> hand pB'. 2 \<le> c"
    by auto
  have "disjoint_cards ?g'"
    using r(3,4,9-12) by (auto simp: disjoint_cards_def disjoint_board_def stack_cards_def)
  moreover have "sound_cards ?g'"
    using r(5,6,9-12) ge
    by (auto simp: sound_cards_def sound_board_def stack_cards_def typed_stacks_def)
  ultimately show ?thesis
    using dc r(7,8) by simp
qed

lemma find_first_player_well_formed:
  assumes "hand (players g A) \<noteq> {}" "hand (players g B) \<noteq> {}"
  shows "\<exists>g'. find_first_player g = Inr g' \<and> players g' = players g \<and> table g' = table g \<and>
           current g' = first g' \<and> turn g' = turn g \<and> turn_payoffs g' = turn_payoffs g"
  using assms
  by (cases "change_first g") (simp_all add: find_first_player_def min_hand_def Let_def)

lemma Game_init_well_formed:
  assumes "enumerates it" "permutes_deck shuffle" "nc = nh * 2 + nt" "1 \<le> nh" "0 \<le> nt"
  shows "\<exists>g. Game_init shuffle it nc nh nt cf d = Inr g \<and> well_formed g \<and>
           card (hand (players g A)) = nat nh \<and> card (hand (players g B)) = nat nh \<and>
           turn g = 1 \<and> turn_payoffs g = [] \<and> current g = first g"
proof -
  let ?g0 = "\<lparr>num_cards = nc, num_hand = nh, num_table = nt, change_first = cf, depth = d,
              turn = 1, u = 0, players = (\<lambda>p. Player), table = {}, turn_payoffs = [],
              first = A, current = A, playable_sets = []\<rparr>"
  let ?g1 = "?g0\<lparr>turn := 1, u := 0, players := (\<lambda>p. Player), table := {}, turn_payoffs := []\<rparr>"
  have "\<exists>g'. deal_cards shuffle ?g1 = Inr g' \<and> disjoint_cards g' \<and> sound_cards g' \<and>
           card (hand (players g' A)) = nat (num_hand ?g1) \<and>
           card (hand (players g' B)) = nat (num_hand ?g1) \<and>
           change_first g' = change_first ?g1 \<and> turn g' = turn ?g1 \<and>
           turn_payoffs g' = turn_payoffs ?g1"
    using assms by (intro deal_cards_well_formed) simp_all
  then obtain g2 where g2: "deal_cards shuffle ?g1 = Inr g2" "disjoint_cards g2" "sound_cards g2"
      "card (hand (players g2 A)) = nat nh" "card (hand (players g2 B)) = nat nh"
      "turn g2 = 1" "turn_payoffs g2 = []"
    by auto
  from g2(4,5) assms(4) have "hand (players g2 A) \<noteq> {}" "hand (players g2 B) \<noteq> {}"
    by auto
  from find_first_player_well_formed [OF this]
  obtain g3 where g3: "find_first_player g2 = Inr g3" "players g3 = players g2"
      "table g3 = table g2" "current g3 = first g3" "turn g3 = turn g2"
      "turn_payoffs g3 = turn_payoffs g2"
    by blast
  from g2(2,3) g3(2,3) have "sound_cards g3" "disjoint_cards g3"
    by (simp_all add: sound_cards_def disjoint_cards_def)
  from find_playable_sets_well_formed [OF assms(1) this]
  obtain g where g: "find_playable_sets it g3 = Inr g" "well_formed g" "players g = players g3"
      "current g = current g3" "turn g = turn g3" "turn_payoffs g = turn_payoffs g3"
      "first g = first g3"
    by blast
  have "Game_init shuffle it nc nh nt cf d = Inr g"
    using assms(3) g2(1) g3(1) g(1) by (simp add: Game_init_def reset_def Let_def)
  with g g2 g3 show ?thesis
    by simp
qed

lemma get_winner_range: "get_winner g \<in> {- 1, 0, 1}"
  by (cases "first g") (simp_all add: get_winner_def)

text \<open>
  C8. For \<open>num_cards = 10\<close>, \<open>num_hand = 4\<close>, \<open>num_table = 2\<close>, whatever the shuffle, the
  iteration order of sets, the random draws, \<open>change_first\<close> and \<open>depth\<close>: the constructor
  returns a game, and \<open>simulate\<close> with two greedy players returns on it, with both hands
  empty, after exactly 8 turns (the turn counter goes from 1 to 9 and 8 payoffs are
  recorded), with a winner in \<open>{-1, 0, 1}\<close>. Each greedy turn of a well-formed game takes
  exactly one card from the hand of the acting player and none from the other hand.
\<close>

theorem greedy_simulation_ends:
  "(enumerates it \<and> permutes_deck shuffle \<longrightarrow>
      (\<exists>g g'. Game_init shuffle it 10 4 2 cf d = Inr g \<and>
         simulate it rs g [GREEDY, GREEDY]
           = Some (Inr ((idx (first g), get_winner g', u g'), g')) \<and>
         is_over g' \<and> card (hand (players g' A)) = 0 \<and> card (hand (players g' B)) = 0 \<and>
         turn g = 1 \<and> turn g' = 9 \<and> turn_payoffs g = [] \<and> length (turn_payoffs g') = 8 \<and>
         get_winner g' \<in> {- 1, 0, 1})) \<and>
   (enumerates it \<and> well_formed g0 \<and> hand (players g0 (current g0)) \<noteq> {} \<longrightarrow>
      (\<exists>pl rs' g1. play_turn it rs [GREEDY, GREEDY] prev g0 = Inr (pl, rs', g1) \<and>
         card (hand (players g1 (current g0))) + 1 = card (hand (players g0 (current g0))) \<and>
         hand (players g1 (other (current g0))) = hand (players g0 (other (current g0))) \<and>
         current g1 = other (current g0) \<and> turn g1 = turn g0 + 1 \<and> well_formed g1))"
proof (intro conjI impI)
  assume a: "enumerates it \<and> permutes_deck shuffle"
  then have it: "enumerates it" and sh: "permutes_deck shuffle"
    by simp_all
  from Game_init_well_formed [OF it sh, of 10 4 2 cf d]
  obtain g where g: "Game_init shuffle it 10 4 2 cf d = Inr g" "well_formed g"
      "card (hand (players g A)) = 4" "card (hand (players g B)) = 4"
      "turn g = 1" "turn_payoffs g = []" "current g = first g"
    by auto
  have c: "card (hand (players g (current g))) = 4"
    "card (hand (players g (other (current g)))) = 4"
    using g(3,4) by (cases "current g"; simp)+
  from greedy_run [OF it g(2) c, of 8 rs None]
  obtain g' where g': "simulate_loop it rs [GREEDY, GREEDY] None g
                = Some (Inr ((idx (first g'), get_winner g', u g'), g'))"
      "is_over g'" "turn g' = turn g + int 8"
      "length (turn_payoffs g') = length (turn_payoffs g) + 8" "first g' = first g"
    by auto
  from g'(2) have h: "card (hand (players g' A)) = 0" "card (hand (players g' B)) = 0"
    by (simp_all add: is_over_def is_hand_empty_def Let_def)
  have s: "simulate it rs g [GREEDY, GREEDY]
             = Some (Inr ((idx (first g), get_winner g', u g'), g'))"
    using g'(1,5) by (simp add: simulate_def)
  have "turn g' = 9" "length (turn_payoffs g') = 8"
    using g'(3,4) g(5,6) by simp_all
  with g(1,5,6) s g'(2) h get_winner_range [of g']
  show "\<exists>g g'. Game_init shuffle it 10 4 2 cf d = Inr g \<and>
         simulate it rs g [GREEDY, GREEDY]
           = Some (Inr ((idx (first g), get_winner g', u g'), g')) \<and>
         is_over g' \<and> card (hand (players g' A)) = 0 \<and> card (hand (players g' B)) = 0 \<and>
         turn g = 1 \<and> turn g' = 9 \<and> turn_payoffs g = [] \<and> length (turn_payoffs g') = 8 \<and>
         get_winner g' \<in> {- 1, 0, 1}"
    by (intro exI [of _ g] exI [of _ g'] conjI)
next
  assume "enumerates it \<and> well_formed g0 \<and> hand (players g0 (current g0)) \<noteq> {}"
  then have a: "enumerates it" "well_formed g0" "hand (players g0 (current g0)) \<noteq> {}"
    by simp_all
  from greedy_turn [OF a, of rs prev]
  obtain pl rs' g1 where t: "play_turn it rs [GREEDY, GREEDY] prev g0 = Inr (pl, rs', g1)"
      "well_formed g1" "current g1 = other (current g0)"
      "card (hand (players g1 (current g0))) + 1 = card (hand (players g0 (current g0)))"
      "hand (players g1 (other (current g0))) = hand (players g0 (other (current g0)))"
      "turn g1 = turn g0 + 1"
    by (elim exE conjE)
  then show "\<exists>pl rs' g1. play_turn it rs [GREEDY, GREEDY] prev g0 = Inr (pl, rs', g1) \<and>
         card (hand (players g1 (current g0))) + 1 = card (hand (players g0 (current g0))) \<and>
         hand (players g1 (other (current g0))) = hand (players g0 (other (current g0))) \<and>
         current g1 = other (current g0) \<and> turn g1 = turn g0 + 1 \<and> well_formed g1"
    by (intro exI conjI)
qed

theorem greedy_simulation_ends_witness:
  "enumerates sorted_list_of_set \<and> permutes_deck rev \<and>
   (\<exists>g g'. Game_init rev sorted_list_of_set 10 4 2 True 2 = Inr g \<and>
      simulate sorted_list_of_set (\<lambda>i. 0) g [GREEDY, GREEDY]
        = Some (Inr ((idx (first g), get_winner g', u g'), g')) \<and>
      is_over g' \<and> turn g' = 9 \<and> length (turn_payoffs g') = 8) \<and>
   (\<exists>g0. well_formed g0 \<and> hand (players g0 (current g0)) \<noteq> {} \<and>
      (\<exists>pl rs' g1. play_turn sorted_list_of_set (\<lambda>i. 0) [GREEDY, GREEDY] None g0
                      = Inr (pl, rs', g1) \<and>
         card (hand (players g1 (current g0))) + 1 = card (hand (players g0 (current g0)))))"
proof -
  note e = enumerates_sorted and p = permutes_deck_rev
  from Game_init_well_formed [OF e p, of 10 4 2 True 2]
  obtain g0 where g0: "well_formed g0" "card (hand (players g0 A)) = 4"
      "card (hand (players g0 B)) = 4"
    by auto
  have ne: "hand (players g0 (current g0)) \<noteq> {}"
    using g0(2,3) by (cases "current g0") auto
  note t = greedy_simulation_ends
    [where it = sorted_list_of_set and shuffle = rev and cf = True and d = 2
       and rs = "\<lambda>i. 0" and ?g0.0 = g0 and prev = None]
  from t e p have a: "\<exists>g g'. Game_init rev sorted_list_of_set 10 4 2 True 2 = Inr g \<and>
      simulate sorted_list_of_set (\<lambda>i. 0) g [GREEDY, GREEDY]
        = Some (Inr ((idx (first g), get_winner g', u g'), g')) \<and>
      is_over g' \<and> turn g' = 9 \<and> length (turn_payoffs g') = 8"
    by blast
  from t e g0(1) ne
  have "\<exists>pl rs' g1. play_turn sorted_list_of_set (\<lambda>i. 0) [GREEDY, GREEDY] None g0
                      = Inr (pl, rs', g1) \<and>
         card (hand (players g1 (current g0))) + 1 = card (hand (players g0 (current g0)))"
    by blast
  with g0(1) ne have "\<exists>g0. well_formed g0 \<and> hand (players g0 (current g0)) \<noteq> {} \<and>
      (\<exists>pl rs' g1. play_turn sorted_list_of_set (\<lambda>i. 0) [GREEDY, GREEDY] None g0
                      = Inr (pl, rs', g1) \<and>
         card (hand (players g1 (current g0))) + 1 = card (hand (players g0 (current g0))))"
    by blast
  with e p a show ?thesis
    by (intro conjI)
qed

section \<open>Hands, table and stacks in every state of the game\<close>

lemma deal_loop_length:
  "deal_loop n cards pA pB = Inr r \<Longrightarrow> 2 * n \<le> length cards"
proof (induction n cards pA pB rule: deal_loop.induct)
  case (1 cards pA pB)
  then show ?case by simp
next
  case (2 n cards pA pB)
  from 2(2) have ne: "cards \<noteq> []" "butlast cards \<noteq> []"
    by (auto simp: Let_def split: if_splits)
  with 2(2) have "deal_loop n (butlast (butlast cards)) (add_hand pA (last cards))
                    (add_hand pB (last (butlast cards))) = Inr r"
    by (simp add: Let_def)
  from 2(1) [OF ne(1) refl refl ne(2) this] ne show ?case
    by (cases cards rule: rev_cases; simp) (cases "butlast cards" rule: rev_cases; simp)
qed

lemma deal_cards_sound:
  assumes "permutes_deck shuffle" "players g = (\<lambda>p. Player)" "deal_cards shuffle g = Inr g'"
  shows "disjoint_cards g' \<and> sound_cards g'"
proof -
  let ?cards = "shuffle [2..num_cards g + 1]"
  from assms(1) have d: "distinct ?cards" and s: "set ?cards = {2..num_cards g + 1}"
    by (simp_all add: permutes_deck_def)
  from assms(2,3) obtain r where
    r0: "deal_loop (nat (num_hand g)) ?cards Player Player = Inr r"
    by (auto simp: deal_cards_def Let_def split: sum.splits)
  then have l: "2 * nat (num_hand g) \<le> length ?cards"
    by (rule deal_loop_length)
  have e: "hand Player = {}" "primes Player = []" "composites Player = []"
    by (simp_all add: Player_def)
  from deal_loop_deals [OF d l, of Player Player] e
  obtain rest pA' pB' where
    r: "deal_loop (nat (num_hand g)) ?cards Player Player = Inr (rest, pA', pB')"
      "set rest \<union> hand pA' \<union> hand pB' = set ?cards"
      "set rest \<inter> (hand pA' \<union> hand pB') = {}" "hand pA' \<inter> hand pB' = {}"
      "finite (hand pA')" "finite (hand pB')"
      "primes pA' = []" "composites pA' = []" "primes pB' = []" "composites pB' = []"
    by auto
  let ?g' = "g\<lparr>players := (players g)(A := pA', B := pB'), table := set rest\<rparr>"
  have "deal_cards shuffle g = Inr ?g'"
    using r(1) by (simp add: deal_cards_def Let_def assms(2))
  with assms(3) have g': "g' = ?g'"
    by simp
  from r(2) s have ge: "\<forall>c \<in> set rest \<union> hand pA' \<union> hand pB'. 2 \<le> c"
    by auto
  have "disjoint_cards ?g'"
    using r(3,4,7-10) by (auto simp: disjoint_cards_def disjoint_board_def stack_cards_def)
  moreover have "sound_cards ?g'"
    using r(5,6,7-10) ge
    by (auto simp: sound_cards_def sound_board_def stack_cards_def typed_stacks_def)
  ultimately show ?thesis
    by (simp add: g')
qed

lemma find_first_player_same:
  "find_first_player g = Inr g' \<Longrightarrow> players g' = players g \<and> table g' = table g"
  by (auto simp: find_first_player_def Let_def split: if_splits sum.splits)

lemma Game_init_sound:
  assumes "enumerates it" "permutes_deck shuffle" "Game_init shuffle it nc nh nt cf d = Inr g"
  shows "well_formed g"
proof -
  let ?g0 = "\<lparr>num_cards = nc, num_hand = nh, num_table = nt, change_first = cf, depth = d,
              turn = 1, u = 0, players = (\<lambda>p. Player), table = {}, turn_payoffs = [],
              first = A, current = A, playable_sets = []\<rparr>"
  let ?g1 = "?g0\<lparr>turn := 1, u := 0, players := (\<lambda>p. Player), table := {}, turn_payoffs := []\<rparr>"
  from assms(3) have "reset shuffle it ?g0 = Inr g"
    by (simp add: Game_init_def split: if_splits)
  then obtain g2 g3 where s: "deal_cards shuffle ?g1 = Inr g2" "find_first_player g2 = Inr g3"
      "find_playable_sets it g3 = Inr g"
    by (auto simp: reset_def Let_def split: sum.splits)
  from deal_cards_sound [OF assms(2) _ s(1)] have "disjoint_cards g2" "sound_cards g2"
    by simp_all
  with find_first_player_same [OF s(2)] have "sound_cards g3" "disjoint_cards g3"
    by (simp_all add: sound_cards_def disjoint_cards_def)
  from find_playable_sets_well_formed [OF assms(1) this] s(3) show ?thesis
    by auto
qed

lemma enumerates_empty: "enumerates it \<Longrightarrow> it {} = []"
  using enumerates_set [of it "{}"] by simp

lemma random_card_error:
  "enumerates it \<Longrightarrow> hand p = {} \<Longrightarrow> get_random_card it r p = Inl IndexError"
  by (simp add: get_random_card_def enumerates_empty)

lemma greedy_play_move:
  assumes "enumerates it" "well_formed g" "greedy_play it r g = Inr (k, v)"
  shows "key_ok g k \<and> can_play_move (players g (current g)) k"
proof (cases "hand (players g (current g)) = {}")
  case True
  with assms(1,3) show ?thesis
    by (simp add: greedy_play_def Let_def random_card_error)
next
  case False
  from greedy_play_ok [OF assms(1,2) False, of r] assms(3) show ?thesis
    by auto
qed

lemma random_play_move:
  assumes "enumerates it" "well_formed g" "random_play it r g = Inr (k, v)"
  shows "key_ok g k \<and> can_play_move (players g (current g)) k"
proof (cases "hand (players g (current g)) = {}")
  case True
  with assms(1,3) show ?thesis
    by (simp add: random_play_def random_card_error)
next
  case False
  from random_play_ok [OF assms(1,2) False, of r] assms(3) show ?thesis
    by auto
qed

lemma max_loop_move:
  "max_loop it g gss al be items mm mp = Inr ((mv, p), g', gss') \<Longrightarrow>
   mv = mm \<or> (\<exists>v. (mv, v) \<in> set items \<and> can_play_move (players g (current g)) mv)"
proof (induction items arbitrary: al mm mp)
  case Nil
  then show ?case
    by simp
next
  case (Cons kv items)
  obtain k v where kv: "kv = (k, v)"
    by (cases kv)
  note r = Cons(2) [unfolded kv]
  show ?case
  proof (cases "can_play_move (players g (current g)) k")
    case False
    with r have "max_loop it g gss al be items mm mp = Inr ((mv, p), g', gss')"
      by simp
    from Cons(1) [OF this] show ?thesis
      by auto
  next
    case True
    let ?snap = "GameState_init (players g) (table g) (u g) (turn g) (current g)
                   (playable_sets g) k v"
    from r True obtain g1 where u1: "update it g k v = Inr g1"
      by (auto simp: Let_def split: sum.splits)
    from r True u1 obtain nm np g2 gss2
      where m: "minimax it g1 (gss @ [?snap]) al be = Inr ((nm, np), g2, gss2)"
      by (auto simp: Let_def split: sum.splits)
    from minimax_frame [OF m] have e: "g2 = g1" "gss2 = gss @ [?snap]"
      by simp_all
    have rb: "rollback g1 ?snap = g"
      using u1 by (rule update_rollback)
    let ?payoff = "xadd np v"
    let ?p2 = "if xless mp ?payoff then ?payoff else mp"
    let ?m2 = "if xless mp ?payoff then k else (if card mm = 0 then k else mm)"
    have m2: "?m2 = k \<or> ?m2 = mm"
      by simp
    show ?thesis
    proof (cases "xle be (xmax al ?p2)")
      case True
      with r \<open>can_play_move (players g (current g)) k\<close> u1 m e rb have "mv = ?m2"
        by (simp add: Let_def)
      with m2 \<open>can_play_move (players g (current g)) k\<close> kv show ?thesis
        by auto
    next
      case False
      with r \<open>can_play_move (players g (current g)) k\<close> u1 m e rb
      have "max_loop it g gss (xmax al ?p2) be items ?m2 ?p2 = Inr ((mv, p), g', gss')"
        by (simp add: Let_def)
      from Cons(1) [OF this] m2 \<open>can_play_move (players g (current g)) k\<close> kv show ?thesis
        by auto
    qed
  qed
qed

lemma min_loop_move:
  "min_loop it g gss al be items mm mp = Inr ((mv, p), g', gss') \<Longrightarrow>
   mv = mm \<or> (\<exists>v. (mv, v) \<in> set items \<and> can_play_move (players g (current g)) mv)"
proof (induction items arbitrary: be mm mp)
  case Nil
  then show ?case
    by simp
next
  case (Cons kv items)
  obtain k v where kv: "kv = (k, v)"
    by (cases kv)
  note r = Cons(2) [unfolded kv]
  show ?case
  proof (cases "can_play_move (players g (current g)) k")
    case False
    with r have "min_loop it g gss al be items mm mp = Inr ((mv, p), g', gss')"
      by simp
    from Cons(1) [OF this] show ?thesis
      by auto
  next
    case True
    let ?snap = "GameState_init (players g) (table g) (u g) (turn g) (current g)
                   (playable_sets g) k v"
    from r True obtain g1 where u1: "update it g k v = Inr g1"
      by (auto simp: Let_def split: sum.splits)
    from r True u1 obtain nm np g2 gss2
      where m: "minimax it g1 (gss @ [?snap]) al be = Inr ((nm, np), g2, gss2)"
      by (auto simp: Let_def split: sum.splits)
    from minimax_frame [OF m] have e: "g2 = g1" "gss2 = gss @ [?snap]"
      by simp_all
    have rb: "rollback g1 ?snap = g"
      using u1 by (rule update_rollback)
    let ?payoff = "xsub np v"
    let ?p2 = "if xless ?payoff mp then ?payoff else mp"
    let ?m2 = "if xless ?payoff mp then k else (if card mm = 0 then k else mm)"
    have m2: "?m2 = k \<or> ?m2 = mm"
      by simp
    show ?thesis
    proof (cases "xle (xmin be ?p2) al")
      case True
      with r \<open>can_play_move (players g (current g)) k\<close> u1 m e rb have "mv = ?m2"
        by (simp add: Let_def)
      with m2 \<open>can_play_move (players g (current g)) k\<close> kv show ?thesis
        by auto
    next
      case False
      with r \<open>can_play_move (players g (current g)) k\<close> u1 m e rb
      have "min_loop it g gss al (xmin be ?p2) items ?m2 ?p2 = Inr ((mv, p), g', gss')"
        by (simp add: Let_def)
      from Cons(1) [OF this] m2 \<open>can_play_move (players g (current g)) k\<close> kv show ?thesis
        by auto
    qed
  qed
qed

lemma minimax_move:
  assumes "minimax it g gss al be = Inr ((mv, p), g', gss')"
  shows "mv = {} \<or> (\<exists>v. (mv, v) \<in> set (playable_sets g) \<and>
                        can_play_move (players g (current g)) mv)"
proof (cases "is_over g \<or> int (length gss) \<ge> depth g")
  case True
  with assms show ?thesis
    by simp
next
  case False
  show ?thesis
  proof (cases "turn g mod 2 = 0")
    case True
    with assms False
    have "max_loop it g gss al be (playable_sets g) {} NegInf = Inr ((mv, p), g', gss')"
      by simp
    then show ?thesis
      by (rule max_loop_move)
  next
    case False
    with assms \<open>\<not> (is_over g \<or> int (length gss) \<ge> depth g)\<close>
    have "min_loop it g gss al be (playable_sets g) {} PosInf = Inr ((mv, p), g', gss')"
      by simp
    then show ?thesis
      by (rule min_loop_move)
  qed
qed

lemma choose_play_move:
  assumes it: "enumerates it" and wf: "well_formed g"
    and st: "set strategies \<subseteq> {RANDOM, GREEDY, MINIMAX}"
    and ch: "choose_play it rs strategies prev g = Inr (pl, rs', g0)"
  shows "g0 = g \<and> (\<exists>k v. pl = Some (k, v) \<and> finite k \<and> (\<forall>c\<in>k. 2 \<le> c) \<and>
                      k \<inter> hand (players g (other (current g))) = {})"
proof -
  let ?s = "strategies ! nat (idx (current g))"
  from ch have l: "nat (idx (current g)) < length strategies"
    by (auto simp: choose_play_def split: if_splits)
  with st have "?s \<in> {RANDOM, GREEDY, MINIMAX}"
    using nth_mem by blast
  then consider "?s = RANDOM" | "?s = GREEDY" | "?s = MINIMAX"
    by blast
  then show ?thesis
  proof cases
    case 1
    with ch l obtain k v where r: "random_play it (rs 0) g = Inr (k, v)" "pl = Some (k, v)" "g0 = g"
      by (auto simp: choose_play_def Let_def split: sum.splits)
    from random_play_move [OF it wf r(1)] have ko: "key_ok g k"
        "can_play_move (players g (current g)) k"
      by simp_all
    from key_ok_move(1-3) [OF wf ko] r(2,3) show ?thesis
      by simp
  next
    case 2
    with ch l obtain k v where r: "greedy_play it (rs 0) g = Inr (k, v)" "pl = Some (k, v)" "g0 = g"
      by (auto simp: choose_play_def Let_def strategy_names split: sum.splits)
    from greedy_play_move [OF it wf r(1)] have ko: "key_ok g k"
        "can_play_move (players g (current g)) k"
      by simp_all
    from key_ok_move(1-3) [OF wf ko] r(2,3) show ?thesis
      by simp
  next
    case 3
    with ch l obtain k v where r: "minimax_play it g = Inr ((k, v), g0)" "pl = Some (k, v)"
      by (auto simp: choose_play_def Let_def strategy_names split: sum.splits)
    then obtain p gss' where m: "minimax it g [] NegInf PosInf = Inr ((k, p), g0, gss')"
      by (auto simp: minimax_play_def split: sum.splits)
    from minimax_frame [OF m] have g0: "g0 = g"
      by simp
    from minimax_move [OF m]
    have "finite k \<and> (\<forall>c\<in>k. 2 \<le> c) \<and> k \<inter> hand (players g (other (current g))) = {}"
    proof
      assume "k = {}"
      then show ?thesis
        by simp
    next
      assume "\<exists>v. (k, v) \<in> set (playable_sets g) \<and> can_play_move (players g (current g)) k"
      then obtain w where w: "(k, w) \<in> set (playable_sets g)"
          "can_play_move (players g (current g)) k"
        by blast
      from wf w(1) have "key_ok g k"
        by (auto simp: well_formed_def moves_ok_def)
      from key_ok_move(1-3) [OF wf this w(2)] show ?thesis
        by simp
    qed
    with g0 r(2) show ?thesis
      by simp
  qed
qed

lemma play_turn_well_formed:
  assumes it: "enumerates it" and wf: "well_formed g"
    and st: "set strategies \<subseteq> {RANDOM, GREEDY, MINIMAX}"
    and pt: "play_turn it rs strategies prev g = Inr (pl, rs', g')"
  shows "well_formed g'"
proof -
  from pt obtain pl0 rs0 g0 where ch: "choose_play it rs strategies prev g = Inr (pl0, rs0, g0)"
    by (auto simp: play_turn_def split: sum.splits)
  from choose_play_move [OF it wf st ch] obtain k v where
    k: "g0 = g" "pl0 = Some (k, v)" "finite k" "\<forall>c\<in>k. 2 \<le> c"
      "k \<inter> hand (players g (other (current g))) = {}"
    by blast
  from ch k(1,2) have "choose_play it rs strategies prev g = Inr (Some (k, v), rs0, g)"
    by simp
  from play_move [OF it wf k(3,4,5) this] pt show ?thesis
    by auto
qed

lemma update_move_well_formed:
  assumes it: "enumerates it" and wf: "well_formed g"
    and k: "(k, w) \<in> set (playable_sets g)" "can_play_move (players g (current g)) k"
    and up: "update it g k v = Inr g'"
  shows "well_formed g'"
proof -
  from wf k(1) have "key_ok g k"
    by (auto simp: well_formed_def moves_ok_def)
  note m = key_ok_move(1-3) [OF wf this k(2)]
  from update_well_formed [OF it wf m, of v] up show ?thesis
    by auto
qed

lemma reachable_well_formed:
  assumes "enumerates it" "reachable it g"
  shows "well_formed g"
  using assms(2)
proof (induction rule: reachable.induct)
  case (dealt shuffle nc nh nt cf d g)
  from assms(1) dealt show ?case
    by (rule Game_init_sound)
next
  case (moved g k w v g')
  from assms(1) moved(5,2,3,4) show ?case
    by (rule update_move_well_formed)
next
  case (played g strategies rs prev pl rs' g')
  from assms(1) played(4,2,3) show ?case
    by (rule play_turn_well_formed)
qed

lemma permutes_deck_id: "permutes_deck (\<lambda>xs. xs)"
  by (simp add: permutes_deck_def)

lemma ten_card_move:
  "(case Game_init (\<lambda>xs. xs) sorted_list_of_set 10 4 2 False 1 of
      Inl e \<Rightarrow> False
    | Inr g \<Rightarrow>
        ({2, 3, 5}, 6) \<in> set (playable_sets g) \<and>
        can_play_move (players g (current g)) {2, 3, 5} \<and>
        (case update sorted_list_of_set g {2, 3, 5} 6 of
           Inl e \<Rightarrow> False
         | Inr g' \<Rightarrow>
             table g' = {5} \<and> primes (players g' A) = [2, 3, 5] \<and>
             hand (players g' A) = {7, 9, 11} \<and> hand (players g' B) = {4, 6, 8, 10}))"
  by code_simp

lemma ten_card_reachable:
  "\<exists>g. reachable sorted_list_of_set g \<and> table g = {5} \<and> primes (players g A) = [2, 3, 5] \<and>
       hand (players g A) = {7, 9, 11} \<and> hand (players g B) = {4, 6, 8, 10}"
proof -
  from ten_card_move obtain g0 g1 where
    g: "Game_init (\<lambda>xs. xs) sorted_list_of_set 10 4 2 False 1 = Inr g0"
      "({2, 3, 5}, 6) \<in> set (playable_sets g0)"
      "can_play_move (players g0 (current g0)) {2, 3, 5}"
      "update sorted_list_of_set g0 {2, 3, 5} 6 = Inr g1"
      "table g1 = {5}" "primes (players g1 A) = [2, 3, 5]"
      "hand (players g1 A) = {7, 9, 11}" "hand (players g1 B) = {4, 6, 8, 10}"
    by (auto split: sum.splits)
  from permutes_deck_id g(1) have "reachable sorted_list_of_set g0"
    by (rule reachable.dealt)
  from this g(2,3,4) have "reachable sorted_list_of_set g1"
    by (rule reachable.moved)
  with g(5-8) show ?thesis
    by blast
qed

text \<open>
  C4. In every state of the game between moves, the two hands are disjoint from each
  other, from the table and from the four capture stacks, and the four capture stacks are
  pairwise disjoint. The table is left out: it can hold cards of the stacks.
\<close>

theorem cards_apart:
  "enumerates it \<and> reachable it g \<longrightarrow>
   hand (players g A) \<inter> hand (players g B) = {} \<and>
   (hand (players g A) \<union> hand (players g B)) \<inter> table g = {} \<and>
   (hand (players g A) \<union> hand (players g B)) \<inter>
     (set (primes (players g A)) \<union> set (composites (players g A)) \<union>
      set (primes (players g B)) \<union> set (composites (players g B))) = {} \<and>
   set (primes (players g A)) \<inter> set (composites (players g A)) = {} \<and>
   set (primes (players g A)) \<inter> set (primes (players g B)) = {} \<and>
   set (primes (players g A)) \<inter> set (composites (players g B)) = {} \<and>
   set (composites (players g A)) \<inter> set (primes (players g B)) = {} \<and>
   set (composites (players g A)) \<inter> set (composites (players g B)) = {} \<and>
   set (primes (players g B)) \<inter> set (composites (players g B)) = {}"
proof
  assume a: "enumerates it \<and> reachable it g"
  then have "well_formed g"
    using reachable_well_formed by blast
  then have d: "disjoint_board (table g) (players g A) (players g B)"
    by (simp add: well_formed_def disjoint_cards_def)
  let ?hA = "hand (players g A)" and ?hB = "hand (players g B)"
  let ?pA = "set (primes (players g A))" and ?cA = "set (composites (players g A))"
  let ?pB = "set (primes (players g B))" and ?cB = "set (composites (players g B))"
  from d have 1: "?hA \<inter> ?hB = {}" and 2: "(?hA \<union> ?hB) \<inter> table g = {}"
    and 3: "(?hA \<union> ?hB) \<inter> ((?pA \<union> ?cA) \<union> (?pB \<union> ?cB)) = {}"
    and 4: "(?pA \<union> ?cA) \<inter> (?pB \<union> ?cB) = {}"
    and 5: "?pA \<inter> ?cA = {}" and 6: "?pB \<inter> ?cB = {}"
    by (simp_all add: disjoint_board_def stack_cards_def)
  from 3 have 3: "(?hA \<union> ?hB) \<inter> (?pA \<union> ?cA \<union> ?pB \<union> ?cB) = {}"
    by (simp add: Un_assoc)
  from 4 have "?pA \<inter> ?pB = {}" "?pA \<inter> ?cB = {}" "?cA \<inter> ?pB = {}" "?cA \<inter> ?cB = {}"
    by blast+
  with 1 2 3 5 6 show "?hA \<inter> ?hB = {} \<and> (?hA \<union> ?hB) \<inter> table g = {} \<and>
    (?hA \<union> ?hB) \<inter> (?pA \<union> ?cA \<union> ?pB \<union> ?cB) = {} \<and>
    ?pA \<inter> ?cA = {} \<and> ?pA \<inter> ?pB = {} \<and> ?pA \<inter> ?cB = {} \<and> ?cA \<inter> ?pB = {} \<and>
    ?cA \<inter> ?cB = {} \<and> ?pB \<inter> ?cB = {}"
    by (intro conjI)
qed

theorem cards_apart_witness:
  "enumerates sorted_list_of_set \<and>
   (\<exists>g. reachable sorted_list_of_set g \<and>
      hand (players g A) = {7, 9, 11} \<and> hand (players g B) = {4, 6, 8, 10} \<and>
      primes (players g A) = [2, 3, 5] \<and>
      hand (players g A) \<inter> hand (players g B) = {} \<and>
      (hand (players g A) \<union> hand (players g B)) \<inter> table g = {} \<and>
      (hand (players g A) \<union> hand (players g B)) \<inter>
        (set (primes (players g A)) \<union> set (composites (players g A)) \<union>
         set (primes (players g B)) \<union> set (composites (players g B))) = {} \<and>
      set (primes (players g A)) \<inter> set (primes (players g B)) = {})"
proof -
  from ten_card_reachable obtain g where
    g: "reachable sorted_list_of_set g" "hand (players g A) = {7, 9, 11}"
      "hand (players g B) = {4, 6, 8, 10}" "primes (players g A) = [2, 3, 5]"
    by blast
  from cards_apart [of sorted_list_of_set g] enumerates_sorted g(1)
  have "hand (players g A) \<inter> hand (players g B) = {} \<and>
      (hand (players g A) \<union> hand (players g B)) \<inter> table g = {} \<and>
      (hand (players g A) \<union> hand (players g B)) \<inter>
        (set (primes (players g A)) \<union> set (composites (players g A)) \<union>
         set (primes (players g B)) \<union> set (composites (players g B))) = {} \<and>
      set (primes (players g A)) \<inter> set (primes (players g B)) = {}"
    by simp
  with g have "\<exists>g. reachable sorted_list_of_set g \<and>
      hand (players g A) = {7, 9, 11} \<and> hand (players g B) = {4, 6, 8, 10} \<and>
      primes (players g A) = [2, 3, 5] \<and>
      hand (players g A) \<inter> hand (players g B) = {} \<and>
      (hand (players g A) \<union> hand (players g B)) \<inter> table g = {} \<and>
      (hand (players g A) \<union> hand (players g B)) \<inter>
        (set (primes (players g A)) \<union> set (composites (players g A)) \<union>
         set (primes (players g B)) \<union> set (composites (players g B))) = {} \<and>
      set (primes (players g A)) \<inter> set (primes (players g B)) = {}"
    by blast
  with enumerates_sorted show ?thesis
    by (intro conjI)
qed

text \<open>
  The claim as stated fails after the first move of the ten-card game: the first player
  captures 2 and 3 from the table with the 5 of the hand, and \<open>update_table\<close> puts the
  5, now the top of the stack of primes, on the table.
\<close>

theorem cards_apart_counterexample:
  "enumerates sorted_list_of_set \<and>
   (\<exists>g. reachable sorted_list_of_set g \<and> table g = {5} \<and>
      primes (players g A) = [2, 3, 5] \<and>
      table g \<inter> set (primes (players g A)) \<noteq> {})"
proof -
  from ten_card_reachable obtain g where
    g: "reachable sorted_list_of_set g" "table g = {5}" "primes (players g A) = [2, 3, 5]"
    by blast
  then have "table g \<inter> set (primes (players g A)) \<noteq> {}"
    by simp
  with g have "\<exists>g. reachable sorted_list_of_set g \<and> table g = {5} \<and>
      primes (players g A) = [2, 3, 5] \<and> table g \<inter> set (primes (players g A)) \<noteq> {}"
    by (intro exI conjI)
  with enumerates_sorted show ?thesis
    by (intro conjI)
qed

end
